theory Spec2Isabelle
  imports Complex_Main "HOL-Library.Word" "HOL-Library.Log_Nat"
begin

unbundle bit_operations_syntax

section \<open>Data model\<close>

text \<open>
  The C sources work on fixed-width integers: samples are \<^verbatim>\<open>uint8_t\<close>, indices and
  smoothed sums are \<^verbatim>\<open>uint16_t\<close>, interference values are \<^verbatim>\<open>int32_t\<close> (compared as
  signed numbers, hence \<open><s\<close> below).  Arrays are lists; C does no bounds checks, so an
  access outside the list is reported as a fault instead of returning an arbitrary value.
  Loop counters whose range is bounded by a compile-time constant far below the width of
  their C type are natural numbers.  Console output (\<^verbatim>\<open>printf\<close>) is not modelled.
\<close>

type_synonym u8 = "8 word"
type_synonym u16 = "16 word"
type_synonym i32 = "32 word"

text \<open>The constants of \<^verbatim>\<open>macros.h\<close> and \<^verbatim>\<open>INT_MAX\<close> of \<^verbatim>\<open>limits.h\<close>.\<close>

definition NUM_SAMPLES :: nat where "NUM_SAMPLES = 1500"
definition SHIFT_LIMIT :: nat where "SHIFT_LIMIT = 1250"
definition SMA_WIDTH :: nat where "SMA_WIDTH = 20"
definition PEAK_SEARCH_RANGE :: nat where "PEAK_SEARCH_RANGE = 15"
definition PEAK_TRACKING_LIMIT :: nat where "PEAK_TRACKING_LIMIT = 10"
definition INTERFERENCE_THRESHOLD :: int where "INTERFERENCE_THRESHOLD = 3000"
definition DEFAULT_VAL :: int where "DEFAULT_VAL = 100"
definition FS :: int where "FS = 44000"
definition INT_MAX :: i32 where "INT_MAX = 2147483647"

datatype fault = ReadOutOfBounds int | WriteOutOfBounds int | DivisionByZero

definition rd :: "'a list \<Rightarrow> int \<Rightarrow> fault + 'a" where
  "rd a k = (if 0 \<le> k \<and> k < int (length a) then Inr (a ! nat k) else Inl (ReadOutOfBounds k))"

definition wr :: "'a list \<Rightarrow> int \<Rightarrow> 'a \<Rightarrow> fault + 'a list" where
  "wr a k v = (if 0 \<le> k \<and> k < int (length a) then Inr (a[nat k := v]) else Inl (WriteOutOfBounds k))"

section \<open>Smoothing stage\<close>

text \<open>
  \<^verbatim>\<open>calculate_sma\<close> (freq_analysis.c): the accumulator \<open>sm\<close> (\<^verbatim>\<open>sum\<close> in the source) is a \<^verbatim>\<open>uint16_t\<close>, so every
  addition is taken modulo \<open>2 ^ 16\<close>; the division is the unsigned one.
\<close>

function sma_loop :: "nat \<Rightarrow> u8 list \<Rightarrow> nat \<Rightarrow> u16 \<Rightarrow> fault + u16" where
  "sma_loop index array i sm =
     (if i \<le> SMA_WIDTH then
        (case rd array (int index + int i) of
           Inl e \<Rightarrow> Inl e
         | Inr v \<Rightarrow> sma_loop index array (i + 1) (sm + ucast v))
      else Inr sm)"
  by pat_completeness auto
termination
  by (relation "measure (\<lambda>(index, array, i, sm). SMA_WIDTH + 1 - i)") auto

declare sma_loop.simps [simp del]

definition calculate_sma :: "u16 \<Rightarrow> u8 list \<Rightarrow> fault + u16" where
  "calculate_sma index array =
     (case sma_loop (unat index) array 0 0 of
        Inl e \<Rightarrow> Inl e
      | Inr sm \<Rightarrow> Inr (sm div word_of_nat (SMA_WIDTH + 1)))"

text \<open>
  The copy loop of \<^verbatim>\<open>core0_thread\<close> (tuner.c): \<^verbatim>\<open>samples[i] = calculate_sma(i, samples_buff)\<close>
  stores the \<^verbatim>\<open>uint16_t\<close> result into a \<^verbatim>\<open>uint8_t\<close> cell, which keeps the low 8 bits.
  The local array \<^verbatim>\<open>samples\<close> starts uninitialised: its first content is a parameter.
\<close>

function smooth_loop :: "u8 list \<Rightarrow> nat \<Rightarrow> u8 list \<Rightarrow> fault + u8 list" where
  "smooth_loop samples_buff i samples =
     (if i < NUM_SAMPLES then
        (case calculate_sma (word_of_nat i) samples_buff of
           Inl e \<Rightarrow> Inl e
         | Inr v \<Rightarrow>
             (case wr samples (int i) (ucast v) of
                Inl e \<Rightarrow> Inl e
              | Inr samples' \<Rightarrow> smooth_loop samples_buff (i + 1) samples'))
      else Inr samples)"
  by pat_completeness auto
termination
  by (relation "measure (\<lambda>(samples_buff, i, samples). NUM_SAMPLES - i)") auto

declare smooth_loop.simps [simp del]

definition smooth :: "u8 list \<Rightarrow> u8 list \<Rightarrow> fault + u8 list" where
  "smooth samples_buff samples = smooth_loop samples_buff 0 samples"

section \<open>Interference profiler\<close>

text \<open>
  \<^verbatim>\<open>calculate_interference_pwr\<close>: the samples are promoted to \<^verbatim>\<open>int\<close> before the subtraction,
  so the absolute difference is computed on integers; the accumulator is an \<^verbatim>\<open>int32_t\<close>.
  The counter \<open>i\<close> is a \<^verbatim>\<open>uint16_t\<close> compared, as an \<^verbatim>\<open>int\<close>, with \<open>NUM_SAMPLES - shift\<close>;
  for a negative \<open>shift\<close> the first read is already outside the array, so the counter
  cannot wrap around before a fault.
\<close>

function pwr_loop :: "int \<Rightarrow> u8 list \<Rightarrow> nat \<Rightarrow> i32 \<Rightarrow> fault + i32" where
  "pwr_loop shift array i power_diff =
     (if int i < int NUM_SAMPLES - shift then
        (case rd array (int i) of
           Inl e \<Rightarrow> Inl e
         | Inr a \<Rightarrow>
             (case rd array (int i + shift) of
                Inl e \<Rightarrow> Inl e
              | Inr b \<Rightarrow>
                  (let power_diff' = power_diff + word_of_int \<bar>uint a - uint b\<bar>
                   in if INTERFERENCE_THRESHOLD < sint power_diff' then Inr INT_MAX
                      else pwr_loop shift array (i + 1) power_diff')))
      else Inr power_diff)"
  by pat_completeness auto
termination
  by (relation "measure (\<lambda>(shift, array, i, power_diff). nat (int NUM_SAMPLES - shift) - i)") auto

declare pwr_loop.simps [simp del]

definition calculate_interference_pwr :: "int \<Rightarrow> u8 list \<Rightarrow> fault + i32" where
  "calculate_interference_pwr shift array = pwr_loop shift array 0 0"

section \<open>Peak detector\<close>

text \<open>
  \<^verbatim>\<open>min_in_range\<close>: \<open>begin_index\<close>, \<open>rng\<close> (\<^verbatim>\<open>range\<close> in the source) and the result are \<^verbatim>\<open>uint16_t\<close>; the index
  \<open>begin_index + i\<close> of the read is an \<^verbatim>\<open>int\<close>, the assignment to \<open>min_index\<close> truncates it
  to 16 bits.
\<close>

function min_loop :: "i32 list \<Rightarrow> u16 \<Rightarrow> u16 \<Rightarrow> nat \<Rightarrow> u16 \<Rightarrow> fault + u16" where
  "min_loop array begin_index rng i min_index =
     (if i < unat rng then
        (case rd array (uint begin_index + int i) of
           Inl e \<Rightarrow> Inl e
         | Inr x \<Rightarrow>
             (case rd array (uint min_index) of
                Inl e \<Rightarrow> Inl e
              | Inr m \<Rightarrow>
                  min_loop array begin_index rng (i + 1)
                    (if x <s m then word_of_int (uint begin_index + int i) else min_index)))
      else Inr min_index)"
  by pat_completeness auto
termination
  by (relation "measure (\<lambda>(array, begin_index, rng, i, min_index). unat rng - i)") auto

declare min_loop.simps [simp del]

definition min_in_range :: "i32 list \<Rightarrow> u16 \<Rightarrow> u16 \<Rightarrow> fault + u16" where
  "min_in_range array begin_index rng = min_loop array begin_index rng 0 begin_index"

text \<open>
  \<^verbatim>\<open>calculate_peaks\<close>.  The local variables of the scan and the two output parameters
  (\<^verbatim>\<open>peaks\<close>, \<^verbatim>\<open>*peak_count\<close>) form the state of the loop; \<open>s_i\<close> is the loop counter.
  One pass through the loop body either goes on to the next iteration or leaves the loop:
  by \<^verbatim>\<open>break\<close> (harmonic rejection) or by \<^verbatim>\<open>return\<close> (capacity reached).  The loop also ends
  when its condition fails (range exhausted).
\<close>

record scan_state =
  s_i :: nat
  s_prev_min_index :: u16
  s_current_min_index :: u16
  s_peaks :: "u16 list"
  s_peak_count :: u8

datatype exit_reason = RangeExhausted | HarmonicRejected | CapacityReached

datatype step = Next scan_state | Stop exit_reason scan_state

text \<open>
  The condition of line 24, \<^verbatim>\<open>array[prev] > array[cur] && array[next] > array[cur]\<close>, with the
  short-circuit evaluation of \<^verbatim>\<open>&&\<close>.
\<close>

definition candidate_test :: "i32 list \<Rightarrow> u16 \<Rightarrow> u16 \<Rightarrow> u16 \<Rightarrow> fault + bool" where
  "candidate_test array prev_idx cur_idx next_idx =
     (case rd array (uint prev_idx) of
        Inl e \<Rightarrow> Inl e
      | Inr p \<Rightarrow>
          (case rd array (uint cur_idx) of
             Inl e \<Rightarrow> Inl e
           | Inr c \<Rightarrow>
               if c <s p then
                 (case rd array (uint next_idx) of
                    Inl e \<Rightarrow> Inl e
                  | Inr n \<Rightarrow> Inr (c <s n))
               else Inr False))"

text \<open>
  The condition of line 28,
  \<^verbatim>\<open>current_min_index > 0 && array[current_min_index - 1] < array[current_min_index]\<close>.
\<close>

definition harmonic_test :: "i32 list \<Rightarrow> u16 \<Rightarrow> fault + bool" where
  "harmonic_test array cur_idx =
     (if 0 < cur_idx then
        (case rd array (uint cur_idx - 1) of
           Inl e \<Rightarrow> Inl e
         | Inr q \<Rightarrow>
             (case rd array (uint cur_idx) of
                Inl e \<Rightarrow> Inl e
              | Inr c \<Rightarrow> Inr (q <s c)))
      else Inr False)"

text \<open>Lines 39-40 and the increment of the loop counter.\<close>

definition advance :: "scan_state \<Rightarrow> u16 \<Rightarrow> scan_state" where
  "advance s next_min_index =
     s\<lparr>s_i := s_i s + PEAK_SEARCH_RANGE,
       s_prev_min_index := s_current_min_index s,
       s_current_min_index := next_min_index\<rparr>"

text \<open>
  The loop body.  \<^verbatim>\<open>(*peak_count)++\<close> is an addition on \<^verbatim>\<open>uint8_t\<close> (it wraps at 256);
  the index \<^verbatim>\<open>(*peak_count) - 1\<close> of the write is an \<^verbatim>\<open>int\<close>.
\<close>

definition loop_body :: "i32 list \<Rightarrow> scan_state \<Rightarrow> fault + step" where
  "loop_body array s =
     (case min_in_range array (word_of_nat (s_i s + PEAK_SEARCH_RANGE))
             (word_of_nat PEAK_SEARCH_RANGE) of
        Inl e \<Rightarrow> Inl e
      | Inr next_min_index \<Rightarrow>
          (case candidate_test array (s_prev_min_index s) (s_current_min_index s)
                  next_min_index of
             Inl e \<Rightarrow> Inl e
           | Inr candidate \<Rightarrow>
               if candidate then
                 (case harmonic_test array (s_current_min_index s) of
                    Inl e \<Rightarrow> Inl e
                  | Inr rejected \<Rightarrow>
                      if rejected then Inr (Stop HarmonicRejected s)
                      else
                        (let count' = s_peak_count s + 1 in
                         case wr (s_peaks s) (uint count' - 1) (s_current_min_index s) of
                           Inl e \<Rightarrow> Inl e
                         | Inr peaks' \<Rightarrow>
                             (let s' = s\<lparr>s_peaks := peaks', s_peak_count := count'\<rparr>
                              in if PEAK_TRACKING_LIMIT \<le> unat count'
                                 then Inr (Stop CapacityReached s')
                                 else Inr (Next (advance s' next_min_index)))))
               else Inr (Next (advance s next_min_index))))"

function scan_loop :: "i32 list \<Rightarrow> scan_state \<Rightarrow> fault + exit_reason \<times> scan_state" where
  "scan_loop array s =
     (if s_i s < SHIFT_LIMIT - PEAK_SEARCH_RANGE - PEAK_SEARCH_RANGE then
        (case loop_body array s of
           Inl e \<Rightarrow> Inl e
         | Inr (Next s') \<Rightarrow> scan_loop array s'
         | Inr (Stop reason s') \<Rightarrow> Inr (reason, s'))
      else Inr (RangeExhausted, s))"
  by pat_completeness auto
termination
  by (relation "measure (\<lambda>(array, s). SHIFT_LIMIT - s_i s)")
    (auto simp: loop_body_def advance_def Let_def SHIFT_LIMIT_def PEAK_SEARCH_RANGE_def
      split: sum.splits if_splits)

declare scan_loop.simps [simp del]

text \<open>
  The function returns nothing; its results are the two output parameters, found in the
  final state.  The reason why the scan ended is kept with them.  \<open>initial_state\<close> is the
  state at the first test of the loop condition (lines 16-20).
\<close>

definition initial_state :: "u16 list \<Rightarrow> u8 \<Rightarrow> i32 list \<Rightarrow> fault + scan_state" where
  "initial_state peaks peak_count array =
     (case min_in_range array 0 (word_of_nat PEAK_SEARCH_RANGE) of
        Inl e \<Rightarrow> Inl e
      | Inr prev_idx \<Rightarrow>
          (case min_in_range array (word_of_nat PEAK_SEARCH_RANGE)
                  (word_of_nat PEAK_SEARCH_RANGE) of
             Inl e \<Rightarrow> Inl e
           | Inr cur_idx \<Rightarrow>
               Inr \<lparr>s_i = PEAK_SEARCH_RANGE, s_prev_min_index = prev_idx,
                    s_current_min_index = cur_idx, s_peaks = peaks,
                    s_peak_count = peak_count\<rparr>))"

definition calculate_peaks ::
    "u16 list \<Rightarrow> u8 \<Rightarrow> i32 list \<Rightarrow> fault + exit_reason \<times> scan_state" where
  "calculate_peaks peaks peak_count array =
     (case initial_state peaks peak_count array of
        Inl e \<Rightarrow> Inl e
      | Inr s \<Rightarrow> scan_loop array s)"

text \<open>
  \<open>scan_steps array s0 s\<close>: the loop, started in state \<open>s0\<close>, tests its condition in
  state \<open>s\<close> (after zero or more passes through the body that went on to the next
  iteration).
\<close>

inductive scan_steps :: "i32 list \<Rightarrow> scan_state \<Rightarrow> scan_state \<Rightarrow> bool"
  for array :: "i32 list" and s0 :: scan_state where
  scan_steps_start: "scan_steps array s0 s0"
| scan_steps_next:
    "scan_steps array s0 s \<Longrightarrow>
     s_i s < SHIFT_LIMIT - PEAK_SEARCH_RANGE - PEAK_SEARCH_RANGE \<Longrightarrow>
     loop_body array s = Inr (Next s') \<Longrightarrow>
     scan_steps array s0 s'"

section \<open>Single-precision arithmetic\<close>

text \<open>
  The C type \<^verbatim>\<open>float\<close> is taken as IEEE 754 binary32 with the default rounding: the result
  of a conversion, an addition or a division is the exact result rounded to the nearest
  number with a 24-bit significand, ties going to the even significand.  A finite
  \<^verbatim>\<open>float\<close> is a rational number and is modelled by its value.  The exponent range is not
  modelled (no overflow to infinity, no subnormal numbers): every value that arises in
  \<^verbatim>\<open>calculate_avg_wavelength\<close> and \<^verbatim>\<open>calculate_freq\<close> is zero or lies between \<open>2 ^ -8\<close> and
  \<open>2 ^ 24\<close>, far inside the range of normal numbers.

  \<open>binade x\<close> is the exponent \<open>e\<close> with \<open>2 ^ e \<le> x < 2 ^ (e + 1)\<close>, for \<open>x > 0\<close>
  (\<open>bitlen n\<close> is the number of binary digits of \<open>n\<close>).
\<close>

type_synonym f32 = rat

definition binade :: "rat \<Rightarrow> int" where
  "binade x =
     (if 1 \<le> x then bitlen \<lfloor>x\<rfloor> - 1
      else - bitlen (\<lceil>1 / x\<rceil> - 1))"

definition round_even :: "rat \<Rightarrow> int" where
  "round_even q =
     (let f = \<lfloor>q\<rfloor>; d = q - of_int f
      in if d < 1 / 2 then f
         else if 1 / 2 < d then f + 1
         else if even f then f else f + 1)"

definition round_f32 :: "rat \<Rightarrow> f32" where
  "round_f32 x =
     (if x = 0 then 0
      else (let u = 2 powi (binade \<bar>x\<bar> - 23)
            in sgn x * of_int (round_even (\<bar>x\<bar> / u)) * u))"

definition f32_of_int :: "int \<Rightarrow> f32" where
  "f32_of_int n = round_f32 (of_int n)"

definition f32_add :: "f32 \<Rightarrow> f32 \<Rightarrow> f32" where
  "f32_add x y = round_f32 (x + y)"

text \<open>The divisor is not zero wherever \<open>f32_div\<close> is used.\<close>

definition f32_div :: "f32 \<Rightarrow> f32 \<Rightarrow> f32" where
  "f32_div x y = round_f32 (x / y)"

section \<open>Frequency reducer\<close>

text \<open>
  \<^verbatim>\<open>calculate_avg_wavelength\<close>.  The counter \<open>i\<close> is a \<^verbatim>\<open>uint8_t\<close> below \<open>peak_count \<le> 255\<close>;
  \<open>i + 1\<close> is computed on \<^verbatim>\<open>int\<close>.  \<open>sm\<close> is \<^verbatim>\<open>sum\<close> in the source.
\<close>

function avg_loop :: "u16 list \<Rightarrow> u8 \<Rightarrow> nat \<Rightarrow> f32 \<Rightarrow> fault + f32" where
  "avg_loop peaks peak_count i sm =
     (if i < unat peak_count then
        (case rd peaks (int i) of
           Inl e \<Rightarrow> Inl e
         | Inr p \<Rightarrow>
             avg_loop peaks peak_count (i + 1)
               (f32_add sm (f32_div (f32_of_int (uint p)) (f32_of_int (int i + 1)))))
      else Inr sm)"
  by pat_completeness auto
termination
  by (relation "measure (\<lambda>(peaks, peak_count, i, sm). unat peak_count - i)") auto

declare avg_loop.simps [simp del]

definition calculate_avg_wavelength :: "u16 list \<Rightarrow> u8 \<Rightarrow> fault + f32" where
  "calculate_avg_wavelength peaks peak_count =
     (if peak_count = 0 then Inr (f32_of_int DEFAULT_VAL)
      else
        (case avg_loop peaks peak_count 0 (f32_of_int 0) of
           Inl e \<Rightarrow> Inl e
         | Inr sm \<Rightarrow> Inr (f32_div sm (f32_of_int (uint peak_count)))))"

text \<open>
  \<^verbatim>\<open>calculate_freq\<close>.  The local arrays \<^verbatim>\<open>interference\<close> and \<^verbatim>\<open>peaks\<close> start uninitialised:
  their first contents are the parameters \<open>interference0\<close> and \<open>peaks0\<close>.  A division of
  \<open>FS\<close> by a zero wavelength is reported as a fault.
\<close>

function profile_loop :: "u8 list \<Rightarrow> nat \<Rightarrow> i32 list \<Rightarrow> fault + i32 list" where
  "profile_loop array shift interference =
     (if shift < NUM_SAMPLES then
        (case calculate_interference_pwr (int shift) array of
           Inl e \<Rightarrow> Inl e
         | Inr v \<Rightarrow>
             (case wr interference (int shift) v of
                Inl e \<Rightarrow> Inl e
              | Inr interference' \<Rightarrow> profile_loop array (shift + 1) interference'))
      else Inr interference)"
  by pat_completeness auto
termination
  by (relation "measure (\<lambda>(array, shift, interference). NUM_SAMPLES - shift)") auto

declare profile_loop.simps [simp del]

definition calculate_freq :: "i32 list \<Rightarrow> u16 list \<Rightarrow> u8 list \<Rightarrow> fault + f32" where
  "calculate_freq interference0 peaks0 array =
     (case profile_loop array 0 interference0 of
        Inl e \<Rightarrow> Inl e
      | Inr interference \<Rightarrow>
          (case calculate_peaks peaks0 0 interference of
             Inl e \<Rightarrow> Inl e
           | Inr (reason, sf) \<Rightarrow>
               (case calculate_avg_wavelength (s_peaks sf) (s_peak_count sf) of
                  Inl e \<Rightarrow> Inl e
                | Inr avg_wavelength \<Rightarrow>
                    if avg_wavelength = 0 then Inl DivisionByZero
                    else Inr (f32_div (f32_of_int FS) avg_wavelength))))"

section \<open>Reference quantities\<close>

text \<open>The exact (unbounded) sum of the \<open>n\<close> raw samples starting at \<open>index\<close>.\<close>

definition window_sum :: "u8 list \<Rightarrow> nat \<Rightarrow> nat \<Rightarrow> nat" where
  "window_sum raw index n = (\<Sum>k = 0..<n. unat (raw ! (index + k)))"

text \<open>
  The interference series of the specification: the absolute difference of the samples
  at \<open>k\<close> and \<open>k + shift\<close>, and the sum of its first \<open>n\<close> terms.
\<close>

definition abs_diff :: "u8 list \<Rightarrow> nat \<Rightarrow> nat \<Rightarrow> int" where
  "abs_diff signal shift k = \<bar>uint (signal ! k) - uint (signal ! (k + shift))\<bar>"

definition partial_power :: "u8 list \<Rightarrow> nat \<Rightarrow> nat \<Rightarrow> int" where
  "partial_power signal shift n = (\<Sum>k = 0..<n. abs_diff signal shift k)"

text \<open>
  The window minimum of the specification: \<open>m\<close> lies in the window of \<open>width\<close> elements
  starting at \<open>start\<close>, no element of the window is smaller, and every element of the
  window before \<open>m\<close> is strictly greater (the first occurrence of the minimum).
\<close>

definition first_min :: "i32 list \<Rightarrow> nat \<Rightarrow> nat \<Rightarrow> nat \<Rightarrow> bool" where
  "first_min array start width m \<longleftrightarrow>
     start \<le> m \<and> m < start + width
     \<and> (\<forall>j \<in> {start..<start + width}. sint (array ! m) \<le> sint (array ! j))
     \<and> (\<forall>j \<in> {start..<m}. sint (array ! m) < sint (array ! j))"

text \<open>
  The average wavelength of the specification: the default for an empty peak list;
  otherwise each peak shift divided by its rank \<open>r\<close> (counted from 1), summed in the order
  of the ranks, and divided by the number of peaks, in single-precision arithmetic.
\<close>

definition rank_normalised_mean :: "u16 list \<Rightarrow> nat \<Rightarrow> f32" where
  "rank_normalised_mean peaks n =
     (if n = 0 then f32_of_int DEFAULT_VAL
      else f32_div
        (foldl f32_add 0
          (map (\<lambda>r. f32_div (f32_of_int (uint (peaks ! (r - 1)))) (f32_of_int (int r)))
            [1..<n + 1]))
        (f32_of_int (int n)))"

text \<open>
  What holds of the window variables whenever the loop condition is tested: the counter is
  a positive multiple of the window width, and the two indices are the minima of the
  previous and of the current window.
\<close>

definition window_inv :: "i32 list \<Rightarrow> scan_state \<Rightarrow> bool" where
  "window_inv array s \<longleftrightarrow>
     PEAK_SEARCH_RANGE dvd s_i s \<and> PEAK_SEARCH_RANGE \<le> s_i s
     \<and> first_min array (s_i s - PEAK_SEARCH_RANGE) PEAK_SEARCH_RANGE (unat (s_prev_min_index s))
     \<and> first_min array (s_i s) PEAK_SEARCH_RANGE (unat (s_current_min_index s))"

text \<open>
  What holds of the output parameters during a call that started with the array \<open>peaks0\<close>
  and a count of zero: the recorded peaks (the first \<open>peak_count\<close> entries) are at least
  \<open>PEAK_SEARCH_RANGE\<close> and below the bound \<open>ub\<close>, they ascend strictly, and the rest of
  the array is untouched.  Whenever the loop condition is tested, fewer than
  \<open>PEAK_TRACKING_LIMIT\<close> peaks are recorded and each lies in a window already passed.
\<close>

definition recorded :: "u16 list \<Rightarrow> nat \<Rightarrow> scan_state \<Rightarrow> bool" where
  "recorded peaks0 ub s \<longleftrightarrow>
     length (s_peaks s) = length peaks0
     \<and> (\<forall>j < unat (s_peak_count s).
           PEAK_SEARCH_RANGE \<le> unat (s_peaks s ! j) \<and> unat (s_peaks s ! j) < ub)
     \<and> sorted_wrt (<) (map unat (take (unat (s_peak_count s)) (s_peaks s)))
     \<and> (\<forall>j \<ge> unat (s_peak_count s). s_peaks s ! j = peaks0 ! j)"

definition peaks_inv :: "u16 list \<Rightarrow> scan_state \<Rightarrow> bool" where
  "peaks_inv peaks0 s \<longleftrightarrow>
     recorded peaks0 (s_i s) s \<and> unat (s_peak_count s) < PEAK_TRACKING_LIMIT"

text \<open>
  The peak list of the specification.  The profile is cut into windows of
  \<open>PEAK_SEARCH_RANGE\<close> elements, numbered from 0; \<open>window_min array k\<close> is the index of the
  first occurrence of the minimum of window \<open>k\<close>.  Window \<open>k\<close> is a strict dip when its
  minimum is strictly below the minima of both neighbouring windows.  The accepted peaks
  of the windows \<open>1 .. n - 1\<close> are the minima of the strict dips among them, in
  ascending order.  The scan visits the windows that start below
  \<open>SHIFT_LIMIT - 2 * PEAK_SEARCH_RANGE\<close>, the last of which is \<open>LAST_WINDOW\<close>.
\<close>

definition window_min :: "i32 list \<Rightarrow> nat \<Rightarrow> nat" where
  "window_min array k =
     fold (\<lambda>j m. if sint (array ! j) < sint (array ! m) then j else m)
       [k * PEAK_SEARCH_RANGE..<k * PEAK_SEARCH_RANGE + PEAK_SEARCH_RANGE]
       (k * PEAK_SEARCH_RANGE)"

definition strict_dip :: "i32 list \<Rightarrow> nat \<Rightarrow> bool" where
  "strict_dip array k \<longleftrightarrow>
     sint (array ! window_min array k) < sint (array ! window_min array (k - 1))
     \<and> sint (array ! window_min array k) < sint (array ! window_min array (k + 1))"

definition accepted_peaks :: "i32 list \<Rightarrow> nat \<Rightarrow> nat list" where
  "accepted_peaks array n = map (window_min array) (filter (strict_dip array) [1..<n])"

definition LAST_WINDOW :: nat where
  "LAST_WINDOW = (SHIFT_LIMIT - 2 * PEAK_SEARCH_RANGE - 1) div PEAK_SEARCH_RANGE"

section \<open>Basic facts\<close>

lemma rd_in_range: "k < length a \<Longrightarrow> rd a (int k) = Inr (a ! k)"
  by (simp add: rd_def)

lemma rd_in_range_add: "i + k < length a \<Longrightarrow> rd a (int i + int k) = Inr (a ! (i + k))"
  using rd_in_range [of "i + k" a] by simp

lemma wr_in_range: "k < length a \<Longrightarrow> wr a (int k) v = Inr (a[k := v])"
  by (simp add: wr_def)

lemma unat_u8_less: "unat (v :: u8) < 256"
  using unsigned_less [of v, where ?'a = nat] by simp

lemma unat_ucast_u8_u16: "unat (ucast (v :: u8) :: u16) = unat v"
proof -
  have "unat v < 2 ^ 16" using unat_u8_less [of v] by simp
  then show ?thesis by (simp add: unsigned_ucast_eq take_bit_nat_eq_self_iff)
qed

lemma window_sum_Suc:
  "window_sum raw index (Suc n) = window_sum raw index n + unat (raw ! (index + n))"
  by (simp add: window_sum_def)

lemma window_sum_bound: "window_sum raw index n \<le> 255 * n"
proof (induction n)
  case 0
  show ?case by (simp add: window_sum_def)
next
  case (Suc n)
  have "unat (raw ! (index + n)) < 256" by (rule unat_u8_less)
  with Suc show ?case by (simp add: window_sum_Suc)
qed

lemma window_sum_mono: "m \<le> n \<Longrightarrow> window_sum raw index m \<le> window_sum raw index n"
  unfolding window_sum_def by (rule sum_mono2) auto

section \<open>The moving average\<close>

lemma sma_loop_sum:
  assumes "index + SMA_WIDTH + 1 \<le> length raw"
    and "i \<le> SMA_WIDTH + 1"
    and "unat s = window_sum raw index i"
  shows "\<exists>t. sma_loop index raw i s = Inr t \<and> unat t = window_sum raw index (SMA_WIDTH + 1)"
  using assms
proof (induction index raw i s rule: sma_loop.induct)
  case (1 index array i sm)
  show ?case
  proof (cases "i \<le> SMA_WIDTH")
    case False
    with "1.prems" have "i = SMA_WIDTH + 1" by simp
    with False "1.prems" show ?thesis by (subst sma_loop.simps) simp
  next
    case True
    with "1.prems" have inr: "index + i < length array" by simp
    then have r: "rd array (int index + int i) = Inr (array ! (index + i))"
      by (rule rd_in_range_add)
    let ?v = "array ! (index + i)"
    have lt: "unat ?v < 256" by (rule unat_u8_less)
    have "window_sum array index i \<le> 255 * i" by (rule window_sum_bound)
    with True have small: "window_sum array index i \<le> 5100" by (simp add: SMA_WIDTH_def)
    have "unat (sm + ucast ?v) = (unat sm + unat (ucast ?v :: u16)) mod 2 ^ 16"
      by (simp add: unat_word_ariths)
    also have "unat (ucast ?v :: u16) = unat ?v"
      by (rule unat_ucast_u8_u16)
    also have "(unat sm + unat ?v) mod 2 ^ 16 = unat sm + unat ?v"
      using small lt "1.prems"(3) by simp
    finally have step: "unat (sm + ucast ?v) = window_sum array index (i + 1)"
      using "1.prems"(3) by (simp add: window_sum_Suc)
    have "\<exists>t. sma_loop index array (i + 1) (sm + ucast ?v) = Inr t
        \<and> unat t = window_sum array index (SMA_WIDTH + 1)"
      using "1.IH" [OF True r] "1.prems"(1) True step by simp
    then show ?thesis
      by (subst sma_loop.simps) (simp add: True r)
  qed
qed

lemma calculate_sma_value:
  assumes "unat index + SMA_WIDTH + 1 \<le> length raw"
  shows "\<exists>r. calculate_sma index raw = Inr r
    \<and> unat r = window_sum raw (unat index) (SMA_WIDTH + 1) div (SMA_WIDTH + 1)"
proof -
  have "unat (0 :: u16) = window_sum raw (unat index) 0" by (simp add: window_sum_def)
  with sma_loop_sum [OF assms, of 0 0]
  obtain t where t: "sma_loop (unat index) raw 0 0 = Inr t"
    "unat t = window_sum raw (unat index) (SMA_WIDTH + 1)" by auto
  have "unat (t div word_of_nat (SMA_WIDTH + 1)) = unat t div (SMA_WIDTH + 1)"
    by (simp add: unat_div SMA_WIDTH_def)
  with t show ?thesis by (simp add: calculate_sma_def)
qed

lemma narrow_exact:
  assumes "unat (r :: u16) \<le> 255"
  shows "unat (ucast r :: u8) = unat r"
proof -
  have "unat r < 2 ^ 8" using assms by simp
  then show ?thesis by (simp add: unsigned_ucast_eq take_bit_nat_eq_self_iff)
qed

lemma narrow_widen:
  assumes "unat (r :: u16) \<le> 255"
  shows "ucast (ucast r :: u8) = r"
proof -
  have "unat (ucast (ucast r :: u8) :: u16) = unat r"
    using narrow_exact [OF assms] by (simp add: unat_ucast_u8_u16)
  then show ?thesis using unsigned_word_eqI by blast
qed

section \<open>Claims about the smoothing stage\<close>

text \<open>
  C6.  For a raw window that holds the elements \<open>index .. index + SMA_WIDTH\<close>,
  \<^verbatim>\<open>calculate_sma(index, raw)\<close> returns the truncating integer mean of those
  \<open>SMA_WIDTH + 1 = 21\<close> consecutive samples, \<open>raw[index]\<close> to \<open>raw[index + SMA_WIDTH]\<close>
  inclusive.  (The bound \<open>index < NUM_SAMPLES\<close> of the callers is not needed.)
\<close>

theorem calculate_sma_is_mean:
  assumes "unat index + SMA_WIDTH + 1 \<le> length raw"
  shows "calculate_sma index raw =
    Inr (word_of_nat ((\<Sum>k = 0..<21. unat (raw ! (unat index + k))) div 21))"
proof -
  from calculate_sma_value [OF assms] obtain r where r: "calculate_sma index raw = Inr r"
    "unat r = window_sum raw (unat index) (SMA_WIDTH + 1) div (SMA_WIDTH + 1)" by auto
  have "calculate_sma index raw = Inr (word_of_nat (unat r))" using r(1) by simp
  then show ?thesis unfolding r(2) by (simp add: window_sum_def SMA_WIDTH_def)
qed

theorem calculate_sma_is_mean_witness:
  "calculate_sma 2 (replicate 20 10 @ [200, 30, 1, 7]) = Inr 19"
proof -
  have len: "unat (2 :: u16) + SMA_WIDTH + 1 \<le> length (replicate 20 (10 :: u8) @ [200, 30, 1, 7])"
    by (simp add: SMA_WIDTH_def)
  have val: "(\<Sum>k = 0..<21.
      unat ((replicate 20 (10 :: u8) @ [200, 30, 1, 7]) ! (unat (2 :: u16) + k))) div 21 = 19"
    by code_simp
  show ?thesis
    using calculate_sma_is_mean [OF len] unfolding val by simp
qed

text \<open>
  C10.  On every raw window that holds the 21 samples read, the \<^verbatim>\<open>uint16_t\<close> accumulator of
  \<^verbatim>\<open>calculate_sma\<close> never wraps: read as an unsigned number, the accumulated word equals the
  exact sum of the samples, and every partial sum is at most \<open>21 * 255 = 5355 < 65536\<close>.
  The returned mean is at most 255, so storing it into a \<^verbatim>\<open>uint8_t\<close> cell (as the copy loop of
  \<^verbatim>\<open>core0_thread\<close> does) keeps its value: narrowing to 8 bits and widening again gives the
  result back.
\<close>

theorem calculate_sma_no_overflow:
  assumes "unat index + SMA_WIDTH + 1 \<le> length raw"
  shows "\<exists>sm r. sma_loop (unat index) raw 0 0 = Inr sm
    \<and> unat sm = window_sum raw (unat index) (SMA_WIDTH + 1)
    \<and> (\<forall>n \<le> SMA_WIDTH + 1. window_sum raw (unat index) n \<le> 5355)
    \<and> calculate_sma index raw = Inr r
    \<and> unat r \<le> 255
    \<and> unat (ucast r :: u8) = unat r
    \<and> (ucast (ucast r :: u8) :: u16) = r"
proof -
  have "unat (0 :: u16) = window_sum raw (unat index) 0" by (simp add: window_sum_def)
  with sma_loop_sum [OF assms, of 0 0]
  obtain sm where sm: "sma_loop (unat index) raw 0 0 = Inr sm"
    "unat sm = window_sum raw (unat index) (SMA_WIDTH + 1)" by auto
  have bound: "window_sum raw (unat index) n \<le> 5355" if "n \<le> SMA_WIDTH + 1" for n
  proof -
    have "window_sum raw (unat index) n \<le> 255 * n" by (rule window_sum_bound)
    with that show ?thesis by (simp add: SMA_WIDTH_def)
  qed
  from calculate_sma_value [OF assms] obtain r where r: "calculate_sma index raw = Inr r"
    "unat r = window_sum raw (unat index) (SMA_WIDTH + 1) div (SMA_WIDTH + 1)" by auto
  have "window_sum raw (unat index) (SMA_WIDTH + 1) \<le> 5355" by (rule bound) simp
  then have small: "unat r \<le> 255" unfolding r(2) by (simp add: SMA_WIDTH_def)
  from sm bound r(1) small narrow_exact [OF small] narrow_widen [OF small]
  show ?thesis by blast
qed

theorem calculate_sma_no_overflow_witness:
  "\<exists>sm r. sma_loop (unat (0 :: u16)) (replicate 21 255) 0 0 = Inr sm
    \<and> unat sm = window_sum (replicate 21 255) (unat (0 :: u16)) (SMA_WIDTH + 1)
    \<and> window_sum (replicate 21 255) (unat (0 :: u16)) 21 \<le> 5355
    \<and> calculate_sma 0 (replicate 21 255) = Inr r
    \<and> unat r \<le> 255
    \<and> unat (ucast r :: u8) = unat r
    \<and> (ucast (ucast r :: u8) :: u16) = r"
proof -
  have "unat (0 :: u16) + SMA_WIDTH + 1 \<le> length (replicate 21 (255 :: u8))"
    by (simp add: SMA_WIDTH_def)
  from calculate_sma_no_overflow [OF this] show ?thesis
    by (simp add: SMA_WIDTH_def) blast
qed

section \<open>The interference profiler\<close>

lemma uint_u8_less: "uint (v :: u8) < 256"
  using unsigned_less [of v, where ?'a = int] by simp

lemma abs_diff_bound: "0 \<le> abs_diff a shift k \<and> abs_diff a shift k \<le> 255"
proof -
  have "uint (a ! k) < 256" "uint (a ! (k + shift)) < 256" by (rule uint_u8_less)+
  moreover have "0 \<le> uint (a ! k)" "0 \<le> uint (a ! (k + shift))" by simp_all
  ultimately show ?thesis unfolding abs_diff_def by linarith
qed

lemma partial_power_Suc:
  "partial_power a shift (Suc n) = partial_power a shift n + abs_diff a shift n"
  by (simp add: partial_power_def)

lemma partial_power_nonneg: "0 \<le> partial_power a shift n"
  unfolding partial_power_def by (rule sum_nonneg) (simp add: abs_diff_bound)

lemma sint_small:
  assumes "0 \<le> x" and "x \<le> 4000"
  shows "sint (word_of_int x :: i32) = x"
proof -
  have "- (2 ^ 31) \<le> x" using assms by simp
  moreover have "x < 2 ^ 31" using assms by simp
  ultimately have "signed_take_bit 31 x = x" by (rule signed_take_bit_int_eq_self)
  then show ?thesis by (simp only: sint_sbintrunc') simp
qed

lemma pwr_loop_result:
  assumes "i \<le> m" and "m + shift \<le> NUM_SAMPLES" and "m + shift \<le> length a"
    and "m + shift = NUM_SAMPLES \<or> INTERFERENCE_THRESHOLD < partial_power a shift m"
    and "sint pd = partial_power a shift i"
    and "\<forall>j \<le> i. partial_power a shift j \<le> INTERFERENCE_THRESHOLD"
  shows "pwr_loop (int shift) a i pd =
    Inr (if \<exists>n \<le> m. INTERFERENCE_THRESHOLD < partial_power a shift n then INT_MAX
         else word_of_int (partial_power a shift m))"
  using assms
proof (induction "int shift" a i pd rule: pwr_loop.induct)
  case (1 array i power_diff)
  show ?case
  proof (cases "i < m")
    case False
    with "1.prems" have im: "i = m" by simp
    with "1.prems" have all: "\<not> (\<exists>n \<le> m. INTERFERENCE_THRESHOLD < partial_power array shift n)"
      by (simp add: not_less)
    with "1.prems" im have "m + shift = NUM_SAMPLES" by auto
    then have stop: "\<not> int i < int NUM_SAMPLES - int shift" using im by simp
    have "word_of_int (sint power_diff) = power_diff" by simp
    then have pdeq: "power_diff = word_of_int (partial_power array shift m)"
      unfolding "1.prems"(5) im by (rule sym)
    show ?thesis
      by (subst pwr_loop.simps) (simp only: stop if_False if_not_P [OF all] pdeq)
  next
    case True
    with "1.prems" have go: "int i < int NUM_SAMPLES - int shift" by simp
    from True "1.prems" have r1: "rd array (int i) = Inr (array ! i)"
      by (intro rd_in_range) simp
    from True "1.prems" have "rd array (int (i + shift)) = Inr (array ! (i + shift))"
      by (intro rd_in_range) simp
    then have r2: "rd array (int i + int shift) = Inr (array ! (i + shift))" by simp
    let ?d = "\<bar>uint (array ! i) - uint (array ! (i + shift))\<bar>"
    let ?pd = "power_diff + word_of_int ?d"
    have d: "?d = abs_diff array shift i" by (simp add: abs_diff_def)
    have le: "partial_power array shift i \<le> INTERFERENCE_THRESHOLD" using "1.prems"(6) by simp
    have nn: "0 \<le> partial_power array shift i" by (rule partial_power_nonneg)
    have "?pd = word_of_int (sint power_diff + ?d)" by simp
    also have "sint power_diff + ?d = partial_power array shift (Suc i)"
      using "1.prems"(5) d by (simp add: partial_power_Suc)
    finally have pd: "?pd = word_of_int (partial_power array shift (Suc i))" .
    have "partial_power array shift (Suc i) \<le> 4000"
      using le abs_diff_bound [of array shift i]
      by (simp add: partial_power_Suc INTERFERENCE_THRESHOLD_def)
    then have spd: "sint ?pd = partial_power array shift (Suc i)"
      unfolding pd by (intro sint_small partial_power_nonneg)
    show ?thesis
    proof (cases "INTERFERENCE_THRESHOLD < partial_power array shift (Suc i)")
      case over: True
      from True have "Suc i \<le> m" by simp
      with over have ex: "\<exists>n \<le> m. INTERFERENCE_THRESHOLD < partial_power array shift n" by blast
      from over spd have "INTERFERENCE_THRESHOLD < sint ?pd" by simp
      with go r1 r2 show ?thesis
        by (subst pwr_loop.simps) (simp add: Let_def if_P [OF ex])
    next
      case under: False
      have all': "\<forall>j \<le> i + 1. partial_power array shift j \<le> INTERFERENCE_THRESHOLD"
        using "1.prems"(6) under by (auto simp: le_Suc_eq not_less)
      have "pwr_loop (int shift) array (i + 1) ?pd =
        Inr (if \<exists>n \<le> m. INTERFERENCE_THRESHOLD < partial_power array shift n then INT_MAX
             else word_of_int (partial_power array shift m))"
      proof (rule "1.hyps" [OF go r1 r2 refl])
        show "\<not> INTERFERENCE_THRESHOLD < sint ?pd" using under spd by simp
        show "i + 1 \<le> m" using True by simp
        show "sint ?pd = partial_power array shift (i + 1)" using spd by simp
      qed (use "1.prems" all' in simp_all)
      moreover from under spd have "\<not> INTERFERENCE_THRESHOLD < sint ?pd" by simp
      ultimately show ?thesis using go r1 r2
        by (subst pwr_loop.simps) (simp add: Let_def)
    qed
  qed
qed


lemma partial_power_take:
  assumes "n + shift \<le> L"
  shows "partial_power (take L a) shift n = partial_power a shift n"
  unfolding partial_power_def abs_diff_def
  by (rule sum.cong) (use assms in auto)

lemma partial_power_0: "partial_power a shift 0 = 0"
  by (simp add: partial_power_def)

text \<open>
  C1.  For a signal of \<open>NUM_SAMPLES\<close> samples and a shift in \<open>[0, NUM_SAMPLES)\<close>,
  \<^verbatim>\<open>calculate_interference_pwr\<close> returns the sum of \<open>|signal[k] - signal[k + shift]|\<close> over
  \<open>k < NUM_SAMPLES - shift\<close> when no partial sum of that series exceeds
  \<open>INTERFERENCE_THRESHOLD\<close> (the 32-bit result then holds the sum exactly), and \<open>INT_MAX\<close> when
  some partial sum exceeds it.  The abort is immediate: if the partial sum of the first \<open>n\<close>
  terms exceeds the threshold, the same answer comes out of a signal cut off after the
  element \<open>n - 1 + shift\<close>, so no later sample is read.
\<close>

theorem calculate_interference_pwr_sum:
  assumes "length signal = NUM_SAMPLES" and "shift < NUM_SAMPLES"
  shows "calculate_interference_pwr (int shift) signal =
      Inr (if \<exists>n \<le> NUM_SAMPLES - shift. INTERFERENCE_THRESHOLD < partial_power signal shift n
           then INT_MAX
           else word_of_int (partial_power signal shift (NUM_SAMPLES - shift)))
    \<and> ((\<exists>n \<le> NUM_SAMPLES - shift. INTERFERENCE_THRESHOLD < partial_power signal shift n)
        \<or> sint (word_of_int (partial_power signal shift (NUM_SAMPLES - shift)) :: i32)
            = partial_power signal shift (NUM_SAMPLES - shift))
    \<and> (\<forall>n \<le> NUM_SAMPLES - shift.
          INTERFERENCE_THRESHOLD < partial_power signal shift n \<longrightarrow>
          calculate_interference_pwr (int shift) (take (n + shift) signal) = Inr INT_MAX)"
proof (intro conjI allI impI)
  show "calculate_interference_pwr (int shift) signal =
      Inr (if \<exists>n \<le> NUM_SAMPLES - shift. INTERFERENCE_THRESHOLD < partial_power signal shift n
           then INT_MAX
           else word_of_int (partial_power signal shift (NUM_SAMPLES - shift)))"
    unfolding calculate_interference_pwr_def
    by (rule pwr_loop_result)
      (use assms in \<open>simp_all add: partial_power_0 INTERFERENCE_THRESHOLD_def\<close>)
next
  have "sint (word_of_int (partial_power signal shift (NUM_SAMPLES - shift)) :: i32)
      = partial_power signal shift (NUM_SAMPLES - shift)"
    if "\<not> (\<exists>n \<le> NUM_SAMPLES - shift. INTERFERENCE_THRESHOLD < partial_power signal shift n)"
  proof -
    from that have "partial_power signal shift (NUM_SAMPLES - shift) \<le> INTERFERENCE_THRESHOLD"
      by (auto simp: not_less)
    then show ?thesis
      by (intro sint_small partial_power_nonneg) (simp add: INTERFERENCE_THRESHOLD_def)
  qed
  then show "(\<exists>n \<le> NUM_SAMPLES - shift. INTERFERENCE_THRESHOLD < partial_power signal shift n)
        \<or> sint (word_of_int (partial_power signal shift (NUM_SAMPLES - shift)) :: i32)
            = partial_power signal shift (NUM_SAMPLES - shift)"
    by blast
next
  fix n
  assume n: "n \<le> NUM_SAMPLES - shift"
    and over: "INTERFERENCE_THRESHOLD < partial_power signal shift n"
  let ?a = "take (n + shift) signal"
  have pp: "partial_power ?a shift n = partial_power signal shift n"
    by (rule partial_power_take) simp
  have "pwr_loop (int shift) ?a 0 0 =
    Inr (if \<exists>k \<le> n. INTERFERENCE_THRESHOLD < partial_power ?a shift k then INT_MAX
         else word_of_int (partial_power ?a shift n))"
    by (rule pwr_loop_result)
      (use assms n over pp in \<open>simp_all add: partial_power_0 INTERFERENCE_THRESHOLD_def\<close>)
  moreover have "\<exists>k \<le> n. INTERFERENCE_THRESHOLD < partial_power ?a shift k"
    using over pp by auto
  ultimately show "calculate_interference_pwr (int shift) ?a = Inr INT_MAX"
    unfolding calculate_interference_pwr_def by (simp only: if_True)
qed


theorem calculate_interference_pwr_sum_witness:
  "calculate_interference_pwr 750 (replicate 750 0 @ replicate 750 255) = Inr INT_MAX
   \<and> calculate_interference_pwr 750 (take 762 (replicate 750 0 @ replicate 750 255)) = Inr INT_MAX
   \<and> calculate_interference_pwr 1499 (replicate 1499 0 @ [200]) = Inr 200"
proof -
  let ?s = "replicate 750 0 @ replicate 750 255 :: u8 list"
  let ?t = "replicate 1499 0 @ [200] :: u8 list"
  have len: "length ?s = NUM_SAMPLES" "length ?t = NUM_SAMPLES" by (simp_all add: NUM_SAMPLES_def)
  have sh: "(750 :: nat) < NUM_SAMPLES" "(1499 :: nat) < NUM_SAMPLES"
    by (simp_all add: NUM_SAMPLES_def)
  note s = calculate_interference_pwr_sum [OF len(1) sh(1)]
  note t = calculate_interference_pwr_sum [OF len(2) sh(2)]
  have "partial_power ?s 750 12 = 3060" by code_simp
  then have over: "INTERFERENCE_THRESHOLD < partial_power ?s 750 12"
    by (simp add: INTERFERENCE_THRESHOLD_def)
  have twelve: "12 \<le> NUM_SAMPLES - 750" by (simp add: NUM_SAMPLES_def)
  with over have ex: "\<exists>n \<le> NUM_SAMPLES - 750. INTERFERENCE_THRESHOLD < partial_power ?s 750 n"
    by blast
  have A: "calculate_interference_pwr 750 ?s = Inr INT_MAX"
    using s [THEN conjunct1] by (simp only: if_P [OF ex]) simp
  have B: "calculate_interference_pwr 750 (take 762 ?s) = Inr INT_MAX"
    using s [THEN conjunct2, THEN conjunct2, rule_format, OF twelve over] by simp
  have one: "partial_power ?t 1499 (Suc 0) = 200" by code_simp
  have "\<not> INTERFERENCE_THRESHOLD < partial_power ?t 1499 n" if "n \<le> NUM_SAMPLES - 1499" for n
  proof -
    from that have "n = 0 \<or> n = 1" by (auto simp: NUM_SAMPLES_def)
    then show ?thesis
    proof
      assume "n = 0"
      then show ?thesis by (simp add: partial_power_0 INTERFERENCE_THRESHOLD_def)
    next
      assume "n = 1"
      then show ?thesis by (simp add: one INTERFERENCE_THRESHOLD_def)
    qed
  qed
  then have none: "\<not> (\<exists>n \<le> NUM_SAMPLES - 1499. INTERFERENCE_THRESHOLD < partial_power ?t 1499 n)"
    by blast
  have last: "NUM_SAMPLES - 1499 = Suc 0" by (simp add: NUM_SAMPLES_def)
  have C: "calculate_interference_pwr 1499 ?t = Inr 200"
    using t [THEN conjunct1] by (simp only: if_not_P [OF none]) (simp only: last one, simp)
  from A B C show ?thesis by blast
qed

section \<open>Window minima\<close>

lemma rd_uint: "unat w < length a \<Longrightarrow> rd a (uint w) = Inr (a ! unat w)"
  using rd_in_range [of "unat w" a] by simp

lemma uint_plus_nat: "uint w + int i = int (unat w + i)"
  by simp

lemma rd_uint_add:
  "unat w + i < length a \<Longrightarrow> rd a (uint w + int i) = Inr (a ! (unat w + i))"
  unfolding uint_plus_nat by (rule rd_in_range)

lemma unat_u16_of_nat: "n < 65536 \<Longrightarrow> unat (word_of_nat n :: u16) = n"
  using unat_of_nat [of n, where ?'a = 16] by simp

lemma unat_store_u16:
  assumes "unat (w :: u16) + i < 65536"
  shows "unat (word_of_int (uint w + int i) :: u16) = unat w + i"
proof -
  have "(word_of_int (int (unat w + i)) :: u16) = word_of_nat (unat w + i)"
    by (rule of_int_of_nat_eq)
  with unat_u16_of_nat [OF assms]
  have "unat (word_of_int (int (unat w + i)) :: u16) = unat w + i"
    by (simp only:)
  then show ?thesis by (simp only: uint_plus_nat)
qed

lemma first_min_single: "first_min array start (Suc 0) start"
  by (simp add: first_min_def)

lemma first_min_extend_keep:
  assumes "first_min array start n m" and "sint (array ! m) \<le> sint (array ! (start + n))"
  shows "first_min array start (Suc n) m"
proof -
  from assms(1) have m: "start \<le> m" "m < start + n"
    and le: "\<And>j. start \<le> j \<Longrightarrow> j < start + n \<Longrightarrow> sint (array ! m) \<le> sint (array ! j)"
    and lt: "\<And>j. start \<le> j \<Longrightarrow> j < m \<Longrightarrow> sint (array ! m) < sint (array ! j)"
    unfolding first_min_def by auto
  have "sint (array ! m) \<le> sint (array ! j)" if "start \<le> j" "j < start + Suc n" for j
  proof (cases "j = start + n")
    case True
    with assms(2) show ?thesis by simp
  next
    case False
    with that have "j < start + n" by simp
    with that(1) show ?thesis by (rule le)
  qed
  with m lt show ?thesis unfolding first_min_def by auto
qed

lemma first_min_extend_new:
  assumes "first_min array start n m" and "sint (array ! (start + n)) < sint (array ! m)"
  shows "first_min array start (Suc n) (start + n)"
proof -
  from assms(1) have m: "start \<le> m" "m < start + n"
    and le: "\<And>j. start \<le> j \<Longrightarrow> j < start + n \<Longrightarrow> sint (array ! m) \<le> sint (array ! j)"
    unfolding first_min_def by auto
  have lt: "sint (array ! (start + n)) < sint (array ! j)" if "start \<le> j" "j < start + n" for j
    using le [OF that] assms(2) by simp
  have "sint (array ! (start + n)) \<le> sint (array ! j)" if "start \<le> j" "j < start + Suc n" for j
  proof (cases "j = start + n")
    case True
    then show ?thesis by simp
  next
    case False
    with that have "j < start + n" by simp
    with that(1) have "sint (array ! (start + n)) < sint (array ! j)" by (rule lt)
    then show ?thesis by simp
  qed
  with lt show ?thesis unfolding first_min_def by auto
qed

lemma min_loop_first_min:
  assumes "unat b + unat r \<le> length a" and "unat b + unat r \<le> 65536"
    and "i \<le> unat r" and "0 < unat r"
    and "first_min a (unat b) (max i 1) (unat mi)"
  shows "\<exists>m. min_loop a b r i mi = Inr m \<and> first_min a (unat b) (unat r) (unat m)"
  using assms
proof (induction a b r i mi rule: min_loop.induct)
  case (1 array begin_index rng i min_index)
  note fm = "1.prems"(5)
  show ?case
  proof (cases "i < unat rng")
    case False
    with "1.prems" have "max i 1 = unat rng" by simp
    with fm have "first_min array (unat begin_index) (unat rng) (unat min_index)"
      by (simp only:)
    with False show ?thesis by (subst min_loop.simps) simp
  next
    case True
    let ?k = "unat begin_index + i"
    from True "1.prems" have k: "?k < length array" "?k < 65536" by simp_all
    have r1: "rd array (uint begin_index + int i) = Inr (array ! ?k)"
      using k(1) by (rule rd_uint_add)
    from fm have "unat min_index < unat begin_index + max i 1" unfolding first_min_def by simp
    with True "1.prems" have "unat min_index < length array" by simp
    then have r2: "rd array (uint min_index) = Inr (array ! unat min_index)" by (rule rd_uint)
    let ?mi = "if array ! ?k <s array ! unat min_index
               then word_of_int (uint begin_index + int i) else min_index"
    have fm': "first_min array (unat begin_index) (max (i + 1) 1) (unat ?mi)"
    proof (cases "sint (array ! ?k) < sint (array ! unat min_index)")
      case less: True
      have "i \<noteq> 0"
      proof
        assume "i = 0"
        with fm have "unat min_index = unat begin_index" unfolding first_min_def by simp
        with less \<open>i = 0\<close> show False by simp
      qed
      then have "max i 1 = i" by simp
      with fm have "first_min array (unat begin_index) i (unat min_index)" by simp
      from first_min_extend_new [OF this less]
      have "first_min array (unat begin_index) (Suc i) ?k" .
      moreover have "unat ?mi = ?k"
        using less unat_store_u16 [OF k(2)] by (simp add: word_sless_alt)
      ultimately show ?thesis by simp
    next
      case geq: False
      then have same: "?mi = min_index" by (simp add: word_sless_alt)
      show ?thesis
      proof (cases "i = 0")
        case True
        with fm same show ?thesis by simp
      next
        case False
        then have "max i 1 = i" by simp
        with fm have "first_min array (unat begin_index) i (unat min_index)" by simp
        moreover from geq have "sint (array ! unat min_index) \<le> sint (array ! ?k)" by simp
        ultimately have "first_min array (unat begin_index) (Suc i) (unat min_index)"
          by (rule first_min_extend_keep)
        with same show ?thesis by simp
      qed
    qed
    have "\<exists>m. min_loop array begin_index rng (i + 1) ?mi = Inr m
        \<and> first_min array (unat begin_index) (unat rng) (unat m)"
      by (rule "1.IH" [OF True r1 r2]) (use "1.prems" True fm' in simp_all)
    then show ?thesis
      using True r1 r2 by (subst min_loop.simps) simp
  qed
qed

lemma min_in_range_first_min:
  assumes "unat b + unat r \<le> length a" and "unat b + unat r \<le> 65536" and "0 < unat r"
  shows "\<exists>m. min_in_range a b r = Inr m \<and> first_min a (unat b) (unat r) (unat m)"
  unfolding min_in_range_def
  by (rule min_loop_first_min) (use assms in \<open>simp_all add: first_min_single\<close>)

section \<open>One pass through the loop body\<close>

lemma first_min_bounds: "first_min a start w m \<Longrightarrow> start \<le> m \<and> m < start + w"
  by (simp add: first_min_def)

lemma first_min_le:
  "first_min a start w m \<Longrightarrow> start \<le> j \<Longrightarrow> j < start + w \<Longrightarrow> sint (a ! m) \<le> sint (a ! j)"
  by (simp add: first_min_def)

lemma first_min_less:
  "first_min a start w m \<Longrightarrow> start \<le> j \<Longrightarrow> j < m \<Longrightarrow> sint (a ! m) < sint (a ! j)"
  by (simp add: first_min_def)

lemma candidate_test_value:
  assumes "unat p < length a" and "unat c < length a" and "unat n < length a"
  shows "candidate_test a p c n =
    Inr (sint (a ! unat c) < sint (a ! unat p) \<and> sint (a ! unat c) < sint (a ! unat n))"
  using assms by (simp add: candidate_test_def rd_uint word_sless_alt)

lemma harmonic_test_value:
  assumes "0 < unat c" and "unat c < length a"
  shows "harmonic_test a c = Inr (sint (a ! (unat c - 1)) < sint (a ! unat c))"
proof -
  from assms(1) have pos: "0 < c" by (simp add: word_greater_zero_iff unat_gt_0)
  have "uint c - 1 = int (unat c - 1)" using assms(1) by simp
  moreover have "rd a (int (unat c - 1)) = Inr (a ! (unat c - 1))"
    using assms by (intro rd_in_range) simp
  ultimately have "rd a (uint c - 1) = Inr (a ! (unat c - 1))" by simp
  with pos assms(2) show ?thesis
    by (simp add: harmonic_test_def rd_uint word_sless_alt)
qed

text \<open>The predecessor of a declared candidate is never lower than the candidate.\<close>

lemma predecessor_not_lower:
  assumes "first_min a (i - w) w p" and "first_min a i w c" and "w \<le> i" and "0 < w"
    and "sint (a ! c) < sint (a ! p)"
  shows "\<not> sint (a ! (c - 1)) < sint (a ! c)"
proof (cases "c = i")
  case True
  from assms(3,4) have "i - w \<le> i - 1" "i - 1 < i - w + w" by simp_all
  with assms(1) have "sint (a ! p) \<le> sint (a ! (i - 1))" by (rule first_min_le)
  with assms(5) True show ?thesis by simp
next
  case False
  with first_min_bounds [OF assms(2)] have "i \<le> c - 1" "c - 1 < c" by linarith+
  with assms(2) have "sint (a ! c) < sint (a ! (c - 1))" by (rule first_min_less)
  then show ?thesis by simp
qed


lemma next_window:
  assumes "PEAK_SEARCH_RANGE dvd i" and "i < SHIFT_LIMIT - PEAK_SEARCH_RANGE - PEAK_SEARCH_RANGE"
    and "SHIFT_LIMIT \<le> length a"
  shows "\<exists>nxt. min_in_range a (word_of_nat (i + PEAK_SEARCH_RANGE)) (word_of_nat PEAK_SEARCH_RANGE)
      = Inr nxt
    \<and> first_min a (i + PEAK_SEARCH_RANGE) PEAK_SEARCH_RANGE (unat nxt)
    \<and> unat nxt < SHIFT_LIMIT"
proof -
  from assms(1,2) have i: "i \<le> 1215"
    unfolding SHIFT_LIMIT_def PEAK_SEARCH_RANGE_def by presburger
  then have b: "unat (word_of_nat (i + PEAK_SEARCH_RANGE) :: u16) = i + PEAK_SEARCH_RANGE"
    by (intro unat_u16_of_nat) (simp add: PEAK_SEARCH_RANGE_def)
  have r: "unat (word_of_nat PEAK_SEARCH_RANGE :: u16) = PEAK_SEARCH_RANGE"
    by (intro unat_u16_of_nat) (simp add: PEAK_SEARCH_RANGE_def)
  have "\<exists>m. min_in_range a (word_of_nat (i + PEAK_SEARCH_RANGE)) (word_of_nat PEAK_SEARCH_RANGE)
      = Inr m
    \<and> first_min a (unat (word_of_nat (i + PEAK_SEARCH_RANGE) :: u16))
        (unat (word_of_nat PEAK_SEARCH_RANGE :: u16)) (unat m)"
    by (rule min_in_range_first_min)
      (use i assms(3) in \<open>simp_all only: b r, simp_all add: PEAK_SEARCH_RANGE_def SHIFT_LIMIT_def\<close>)
  then obtain m where m: "min_in_range a (word_of_nat (i + PEAK_SEARCH_RANGE))
      (word_of_nat PEAK_SEARCH_RANGE) = Inr m"
    "first_min a (i + PEAK_SEARCH_RANGE) PEAK_SEARCH_RANGE (unat m)"
    unfolding b r by blast
  from first_min_bounds [OF m(2)] i have "unat m < SHIFT_LIMIT"
    by (simp add: PEAK_SEARCH_RANGE_def SHIFT_LIMIT_def)
  with m show ?thesis by blast
qed


lemma loop_body_eq:
  assumes inv: "window_inv a s"
    and run: "s_i s < SHIFT_LIMIT - PEAK_SEARCH_RANGE - PEAK_SEARCH_RANGE"
    and len: "SHIFT_LIMIT \<le> length a"
  shows "\<exists>nxt.
      min_in_range a (word_of_nat (s_i s + PEAK_SEARCH_RANGE)) (word_of_nat PEAK_SEARCH_RANGE)
        = Inr nxt
    \<and> first_min a (s_i s + PEAK_SEARCH_RANGE) PEAK_SEARCH_RANGE (unat nxt)
    \<and> candidate_test a (s_prev_min_index s) (s_current_min_index s) nxt =
        Inr (sint (a ! unat (s_current_min_index s)) < sint (a ! unat (s_prev_min_index s))
           \<and> sint (a ! unat (s_current_min_index s)) < sint (a ! unat nxt))
    \<and> loop_body a s =
        (if sint (a ! unat (s_current_min_index s)) < sint (a ! unat (s_prev_min_index s))
           \<and> sint (a ! unat (s_current_min_index s)) < sint (a ! unat nxt)
         then
           (case wr (s_peaks s) (uint (s_peak_count s + 1) - 1) (s_current_min_index s) of
              Inl e \<Rightarrow> Inl e
            | Inr peaks' \<Rightarrow>
                if PEAK_TRACKING_LIMIT \<le> unat (s_peak_count s + 1)
                then Inr (Stop CapacityReached
                       (s\<lparr>s_peaks := peaks', s_peak_count := s_peak_count s + 1\<rparr>))
                else Inr (Next (advance
                       (s\<lparr>s_peaks := peaks', s_peak_count := s_peak_count s + 1\<rparr>) nxt)))
         else Inr (Next (advance s nxt)))"
proof -
  let ?p = "s_prev_min_index s" and ?c = "s_current_min_index s"
  from inv have dvd: "PEAK_SEARCH_RANGE dvd s_i s" and ge: "PEAK_SEARCH_RANGE \<le> s_i s"
    and fp: "first_min a (s_i s - PEAK_SEARCH_RANGE) PEAK_SEARCH_RANGE (unat ?p)"
    and fc: "first_min a (s_i s) PEAK_SEARCH_RANGE (unat ?c)"
    unfolding window_inv_def by simp_all
  from next_window [OF dvd run len] obtain nxt where
    nxt: "min_in_range a (word_of_nat (s_i s + PEAK_SEARCH_RANGE)) (word_of_nat PEAK_SEARCH_RANGE)
      = Inr nxt"
    and fn: "first_min a (s_i s + PEAK_SEARCH_RANGE) PEAK_SEARCH_RANGE (unat nxt)"
    and nlt: "unat nxt < SHIFT_LIMIT" by blast
  from first_min_bounds [OF fp] ge run len have pl: "unat ?p < length a"
    by (simp add: SHIFT_LIMIT_def PEAK_SEARCH_RANGE_def)
  from first_min_bounds [OF fc] run len have cl: "unat ?c < length a"
    by (simp add: SHIFT_LIMIT_def PEAK_SEARCH_RANGE_def)
  from nlt len have nl: "unat nxt < length a" by simp
  from first_min_bounds [OF fc] ge have cpos: "0 < unat ?c" by (simp add: PEAK_SEARCH_RANGE_def)
  note ct = candidate_test_value [OF pl cl nl]
  note ht = harmonic_test_value [OF cpos cl]
  have dead: "\<not> sint (a ! (unat ?c - 1)) < sint (a ! unat ?c)"
    if "sint (a ! unat ?c) < sint (a ! unat ?p)"
    by (rule predecessor_not_lower [OF fp fc ge _ that]) (simp add: PEAK_SEARCH_RANGE_def)
  have "loop_body a s =
        (if sint (a ! unat ?c) < sint (a ! unat ?p) \<and> sint (a ! unat ?c) < sint (a ! unat nxt)
         then
           (case wr (s_peaks s) (uint (s_peak_count s + 1) - 1) ?c of
              Inl e \<Rightarrow> Inl e
            | Inr peaks' \<Rightarrow>
                if PEAK_TRACKING_LIMIT \<le> unat (s_peak_count s + 1)
                then Inr (Stop CapacityReached
                       (s\<lparr>s_peaks := peaks', s_peak_count := s_peak_count s + 1\<rparr>))
                else Inr (Next (advance
                       (s\<lparr>s_peaks := peaks', s_peak_count := s_peak_count s + 1\<rparr>) nxt)))
         else Inr (Next (advance s nxt)))"
  proof (cases "sint (a ! unat ?c) < sint (a ! unat ?p)")
    case True
    from dead [OF True] have ht': "harmonic_test a ?c = Inr False" unfolding ht by simp
    show ?thesis
      unfolding loop_body_def nxt
      by (cases "sint (a ! unat ?c) < sint (a ! unat nxt)")
        (simp_all add: ct ht' True Let_def split: sum.split)
  next
    case False
    then show ?thesis unfolding loop_body_def nxt by (simp add: ct Let_def)
  qed
  with nxt fn ct show ?thesis by blast
qed

section \<open>Invariants of the scan\<close>

lemma window_inv_advance:
  assumes "window_inv a s" and "first_min a (s_i s + PEAK_SEARCH_RANGE) PEAK_SEARCH_RANGE (unat nxt)"
    and "s_i t = s_i s" and "s_current_min_index t = s_current_min_index s"
  shows "window_inv a (advance t nxt)"
  using assms by (simp add: window_inv_def advance_def)

lemma recorded_advance [simp]: "recorded pk ub (advance s nxt) = recorded pk ub s"
  by (simp add: recorded_def advance_def)

lemma recorded_mono: "recorded pk ub s \<Longrightarrow> ub \<le> ub' \<Longrightarrow> recorded pk ub' s"
  unfolding recorded_def by fastforce

lemma unat_u8_succ: "unat (c :: u8) < 255 \<Longrightarrow> unat (c + 1) = unat c + 1"
  by (simp add: unat_word_ariths)

lemma recorded_append:
  assumes rec: "recorded pk ub s"
    and c: "unat (s_peak_count s) < length pk" "unat (s_peak_count s) < 255"
    and cur: "ub \<le> unat cur" "PEAK_SEARCH_RANGE \<le> unat cur" "unat cur < ub'"
  shows "recorded pk ub'
    (s\<lparr>s_peaks := (s_peaks s)[unat (s_peak_count s) := cur],
       s_peak_count := s_peak_count s + 1\<rparr>)"
proof -
  let ?c = "unat (s_peak_count s)" and ?pk = "s_peaks s"
  from rec have len: "length ?pk = length pk"
    and old: "\<And>j. j < ?c \<Longrightarrow> PEAK_SEARCH_RANGE \<le> unat (?pk ! j) \<and> unat (?pk ! j) < ub"
    and srt: "sorted_wrt (<) (map unat (take ?c ?pk))"
    and rest: "\<And>j. ?c \<le> j \<Longrightarrow> ?pk ! j = pk ! j"
    unfolding recorded_def by auto
  have suc: "unat (s_peak_count s + 1) = Suc ?c" using unat_u8_succ [OF c(2)] by simp
  from c(1) len have clt: "?c < length ?pk" by simp
  have tk: "take (Suc ?c) (?pk[?c := cur]) = take ?c ?pk @ [cur]"
    using clt by (simp add: take_Suc_conv_app_nth)
  have below: "x < unat cur" if "x \<in> set (map unat (take ?c ?pk))" for x
  proof -
    from that obtain j where "j < ?c" "x = unat (?pk ! j)"
      using clt by (auto simp: in_set_conv_nth)
    with old [of j] cur(1) show ?thesis by simp
  qed
  have "sorted_wrt (<) (map unat (take (Suc ?c) (?pk[?c := cur])))"
    unfolding tk using srt below by (simp add: sorted_wrt_append)
  moreover have "PEAK_SEARCH_RANGE \<le> unat (?pk[?c := cur] ! j) \<and> unat (?pk[?c := cur] ! j) < ub'"
    if "j < Suc ?c" for j
  proof (cases "j = ?c")
    case True
    with clt cur show ?thesis by simp
  next
    case False
    with that have "j < ?c" by simp
    from old [OF this] cur False show ?thesis by simp
  qed
  moreover have "?pk[?c := cur] ! j = pk ! j" if "Suc ?c \<le> j" for j
    using that rest [of j] by simp
  ultimately show ?thesis
    unfolding recorded_def using len by (simp add: suc)
qed


lemma loop_body_Next_window_inv:
  assumes inv: "window_inv a s"
    and run: "s_i s < SHIFT_LIMIT - PEAK_SEARCH_RANGE - PEAK_SEARCH_RANGE"
    and len: "SHIFT_LIMIT \<le> length a"
    and nx: "loop_body a s = Inr (Next s')"
  shows "window_inv a s'"
proof -
  from loop_body_eq [OF inv run len] obtain nxt where
    fn: "first_min a (s_i s + PEAK_SEARCH_RANGE) PEAK_SEARCH_RANGE (unat nxt)"
    and lb: "loop_body a s =
        (if sint (a ! unat (s_current_min_index s)) < sint (a ! unat (s_prev_min_index s))
           \<and> sint (a ! unat (s_current_min_index s)) < sint (a ! unat nxt)
         then
           (case wr (s_peaks s) (uint (s_peak_count s + 1) - 1) (s_current_min_index s) of
              Inl e \<Rightarrow> Inl e
            | Inr peaks' \<Rightarrow>
                if PEAK_TRACKING_LIMIT \<le> unat (s_peak_count s + 1)
                then Inr (Stop CapacityReached
                       (s\<lparr>s_peaks := peaks', s_peak_count := s_peak_count s + 1\<rparr>))
                else Inr (Next (advance
                       (s\<lparr>s_peaks := peaks', s_peak_count := s_peak_count s + 1\<rparr>) nxt)))
         else Inr (Next (advance s nxt)))"
    by blast
  from nx [unfolded lb] obtain t where "s' = advance t nxt" "s_i t = s_i s"
    "s_current_min_index t = s_current_min_index s"
    by (auto split: if_splits sum.splits)
  with window_inv_advance [OF inv fn] show ?thesis by simp
qed

lemma scan_steps_window_inv:
  assumes "scan_steps a s0 s" and "window_inv a s0" and "SHIFT_LIMIT \<le> length a"
  shows "window_inv a s"
  using assms
  by (induction rule: scan_steps.induct) (auto intro: loop_body_Next_window_inv)

lemma scan_steps_scan_loop:
  assumes "scan_steps a s0 s"
  shows "scan_loop a s0 = scan_loop a s"
  using assms
proof (induction rule: scan_steps.induct)
  case scan_steps_start
  show ?case by simp
next
  case (scan_steps_next s s')
  have "scan_loop a s = scan_loop a s'"
    using scan_steps_next.hyps(2,3) by (subst scan_loop.simps) simp
  with scan_steps_next.IH show ?case by simp
qed

lemma initial_state_window_inv:
  assumes "SHIFT_LIMIT \<le> length a"
  shows "\<exists>s0. initial_state pk cnt a = Inr s0 \<and> window_inv a s0
    \<and> s_i s0 = PEAK_SEARCH_RANGE \<and> s_peaks s0 = pk \<and> s_peak_count s0 = cnt"
proof -
  have r: "unat (word_of_nat PEAK_SEARCH_RANGE :: u16) = PEAK_SEARCH_RANGE"
    by (intro unat_u16_of_nat) (simp add: PEAK_SEARCH_RANGE_def)
  have "\<exists>m. min_in_range a 0 (word_of_nat PEAK_SEARCH_RANGE) = Inr m
    \<and> first_min a (unat (0 :: u16)) (unat (word_of_nat PEAK_SEARCH_RANGE :: u16)) (unat m)"
    by (rule min_in_range_first_min)
      (use assms in \<open>simp_all only: r, simp_all add: PEAK_SEARCH_RANGE_def SHIFT_LIMIT_def\<close>)
  then obtain p where p: "min_in_range a 0 (word_of_nat PEAK_SEARCH_RANGE) = Inr p"
    "first_min a 0 PEAK_SEARCH_RANGE (unat p)"
    unfolding r by auto
  have "\<exists>m. min_in_range a (word_of_nat PEAK_SEARCH_RANGE) (word_of_nat PEAK_SEARCH_RANGE) = Inr m
    \<and> first_min a (unat (word_of_nat PEAK_SEARCH_RANGE :: u16))
        (unat (word_of_nat PEAK_SEARCH_RANGE :: u16)) (unat m)"
    by (rule min_in_range_first_min)
      (use assms in \<open>simp_all only: r, simp_all add: PEAK_SEARCH_RANGE_def SHIFT_LIMIT_def\<close>)
  then obtain c where c: "min_in_range a (word_of_nat PEAK_SEARCH_RANGE)
      (word_of_nat PEAK_SEARCH_RANGE) = Inr c"
    "first_min a PEAK_SEARCH_RANGE PEAK_SEARCH_RANGE (unat c)"
    unfolding r by auto
  show ?thesis
    unfolding initial_state_def p(1) c(1)
    using p(2) c(2) by (simp add: window_inv_def)
qed


lemma wr_fault: "wr x k v = Inl e \<Longrightarrow> e = WriteOutOfBounds k"
  by (auto simp: wr_def split: if_splits)

lemma loop_body_no_read_fault:
  assumes inv: "window_inv a s"
    and run: "s_i s < SHIFT_LIMIT - PEAK_SEARCH_RANGE - PEAK_SEARCH_RANGE"
    and len: "SHIFT_LIMIT \<le> length a"
  shows "loop_body a s \<noteq> Inl (ReadOutOfBounds k)"
proof -
  from loop_body_eq [OF inv run len] obtain nxt where
    lb: "loop_body a s =
        (if sint (a ! unat (s_current_min_index s)) < sint (a ! unat (s_prev_min_index s))
           \<and> sint (a ! unat (s_current_min_index s)) < sint (a ! unat nxt)
         then
           (case wr (s_peaks s) (uint (s_peak_count s + 1) - 1) (s_current_min_index s) of
              Inl e \<Rightarrow> Inl e
            | Inr peaks' \<Rightarrow>
                if PEAK_TRACKING_LIMIT \<le> unat (s_peak_count s + 1)
                then Inr (Stop CapacityReached
                       (s\<lparr>s_peaks := peaks', s_peak_count := s_peak_count s + 1\<rparr>))
                else Inr (Next (advance
                       (s\<lparr>s_peaks := peaks', s_peak_count := s_peak_count s + 1\<rparr>) nxt)))
         else Inr (Next (advance s nxt)))"
    by blast
  show ?thesis
    unfolding lb by (auto split: sum.splits dest: wr_fault)
qed

lemma scan_loop_no_read_fault:
  assumes "window_inv a s" and "SHIFT_LIMIT \<le> length a"
  shows "scan_loop a s \<noteq> Inl (ReadOutOfBounds k)"
  using assms
proof (induction a s rule: scan_loop.induct)
  case (1 array s)
  show ?case
  proof (cases "s_i s < SHIFT_LIMIT - PEAK_SEARCH_RANGE - PEAK_SEARCH_RANGE")
    case False
    then show ?thesis by (subst scan_loop.simps) simp
  next
    case True
    note nf = loop_body_no_read_fault [OF "1.prems"(1) True "1.prems"(2), of k]
    show ?thesis
    proof (cases "loop_body array s")
      case (Inl e)
      with nf True show ?thesis by (subst scan_loop.simps) auto
    next
      case (Inr st)
      show ?thesis
      proof (cases st)
        case (Next s')
        with Inr have lb: "loop_body array s = Inr (Next s')" by simp
        from loop_body_Next_window_inv [OF "1.prems"(1) True "1.prems"(2) lb]
        have "scan_loop array s' \<noteq> Inl (ReadOutOfBounds k)"
          using "1.IH" [OF True lb] "1.prems"(2) by simp
        with True lb show ?thesis by (subst scan_loop.simps) simp
      next
        case (Stop r s')
        with Inr True show ?thesis by (subst scan_loop.simps) simp
      qed
    qed
  qed
qed

lemma first_min_unique:
  assumes "first_min a st w m" and "first_min a st w m'"
  shows "m = m'"
proof (rule ccontr)
  assume "m \<noteq> m'"
  then consider "m < m'" | "m' < m" by linarith
  then show False
  proof cases
    case 1
    from first_min_less [OF assms(2) _ 1] first_min_bounds [OF assms(1)]
    have "sint (a ! m') < sint (a ! m)" by simp
    moreover from first_min_le [OF assms(1)] first_min_bounds [OF assms(2)]
    have "sint (a ! m) \<le> sint (a ! m')" by simp
    ultimately show False by simp
  next
    case 2
    from first_min_less [OF assms(1) _ 2] first_min_bounds [OF assms(2)]
    have "sint (a ! m) < sint (a ! m')" by simp
    moreover from first_min_le [OF assms(2)] first_min_bounds [OF assms(1)]
    have "sint (a ! m') \<le> sint (a ! m)" by simp
    ultimately show False by simp
  qed
qed

lemma first_min_take:
  assumes "st + w \<le> n"
  shows "first_min (take n a) st w m = first_min a st w m"
  using assms unfolding first_min_def by auto

section \<open>Independence of the samples beyond the shift limit\<close>

lemma window_inv_take:
  assumes "s_i s + PEAK_SEARCH_RANGE \<le> n"
  shows "window_inv (take n a) s = window_inv a s"
proof -
  have "first_min (take n a) (s_i s) PEAK_SEARCH_RANGE m = first_min a (s_i s) PEAK_SEARCH_RANGE m"
    for m by (rule first_min_take) (use assms in simp)
  moreover have "first_min (take n a) (s_i s - PEAK_SEARCH_RANGE) PEAK_SEARCH_RANGE m
      = first_min a (s_i s - PEAK_SEARCH_RANGE) PEAK_SEARCH_RANGE m"
    for m by (rule first_min_take) (use assms in simp)
  ultimately show ?thesis by (simp add: window_inv_def)
qed

lemma loop_body_take:
  assumes inv: "window_inv a s"
    and run: "s_i s < SHIFT_LIMIT - PEAK_SEARCH_RANGE - PEAK_SEARCH_RANGE"
    and n: "SHIFT_LIMIT \<le> n" "n \<le> length a"
  shows "loop_body (take n a) s = loop_body a s"
proof -
  let ?p = "unat (s_prev_min_index s)" and ?c = "unat (s_current_min_index s)"
  from inv have dvd: "PEAK_SEARCH_RANGE dvd s_i s" and ge: "PEAK_SEARCH_RANGE \<le> s_i s"
    and fp: "first_min a (s_i s - PEAK_SEARCH_RANGE) PEAK_SEARCH_RANGE ?p"
    and fc: "first_min a (s_i s) PEAK_SEARCH_RANGE ?c"
    unfolding window_inv_def by simp_all
  from dvd run have i: "s_i s \<le> 1215"
    unfolding SHIFT_LIMIT_def PEAK_SEARCH_RANGE_def by presburger
  from n have len: "SHIFT_LIMIT \<le> length a" "SHIFT_LIMIT \<le> length (take n a)" by simp_all
  from i n(1) have "s_i s + PEAK_SEARCH_RANGE \<le> n"
    by (simp add: SHIFT_LIMIT_def PEAK_SEARCH_RANGE_def)
  with inv have inv': "window_inv (take n a) s" by (simp add: window_inv_take)
  from loop_body_eq [OF inv run len(1)] obtain nxt where
    fn: "first_min a (s_i s + PEAK_SEARCH_RANGE) PEAK_SEARCH_RANGE (unat nxt)"
    and lb: "loop_body a s =
        (if sint (a ! ?c) < sint (a ! ?p) \<and> sint (a ! ?c) < sint (a ! unat nxt)
         then
           (case wr (s_peaks s) (uint (s_peak_count s + 1) - 1) (s_current_min_index s) of
              Inl e \<Rightarrow> Inl e
            | Inr peaks' \<Rightarrow>
                if PEAK_TRACKING_LIMIT \<le> unat (s_peak_count s + 1)
                then Inr (Stop CapacityReached
                       (s\<lparr>s_peaks := peaks', s_peak_count := s_peak_count s + 1\<rparr>))
                else Inr (Next (advance
                       (s\<lparr>s_peaks := peaks', s_peak_count := s_peak_count s + 1\<rparr>) nxt)))
         else Inr (Next (advance s nxt)))"
    by blast
  from loop_body_eq [OF inv' run len(2)] obtain nxt' where
    fn': "first_min (take n a) (s_i s + PEAK_SEARCH_RANGE) PEAK_SEARCH_RANGE (unat nxt')"
    and lb': "loop_body (take n a) s =
        (if sint (take n a ! ?c) < sint (take n a ! ?p)
           \<and> sint (take n a ! ?c) < sint (take n a ! unat nxt')
         then
           (case wr (s_peaks s) (uint (s_peak_count s + 1) - 1) (s_current_min_index s) of
              Inl e \<Rightarrow> Inl e
            | Inr peaks' \<Rightarrow>
                if PEAK_TRACKING_LIMIT \<le> unat (s_peak_count s + 1)
                then Inr (Stop CapacityReached
                       (s\<lparr>s_peaks := peaks', s_peak_count := s_peak_count s + 1\<rparr>))
                else Inr (Next (advance
                       (s\<lparr>s_peaks := peaks', s_peak_count := s_peak_count s + 1\<rparr>) nxt')))
         else Inr (Next (advance s nxt')))"
    by blast
  from i n(1) have w: "s_i s + PEAK_SEARCH_RANGE + PEAK_SEARCH_RANGE \<le> n"
    by (simp add: SHIFT_LIMIT_def PEAK_SEARCH_RANGE_def)
  from fn' have "first_min a (s_i s + PEAK_SEARCH_RANGE) PEAK_SEARCH_RANGE (unat nxt')"
    using first_min_take [OF w] by simp
  with fn have "unat nxt' = unat nxt" by (rule first_min_unique [symmetric])
  then have same: "nxt' = nxt" by (rule unsigned_word_eqI)
  from first_min_bounds [OF fp] first_min_bounds [OF fc] first_min_bounds [OF fn] w ge
  have "?p < n" "?c < n" "unat nxt < n" by simp_all
  then have tk: "take n a ! ?p = a ! ?p" "take n a ! ?c = a ! ?c"
    "take n a ! unat nxt = a ! unat nxt"
    by simp_all
  show ?thesis
    unfolding lb lb' [unfolded same tk] ..
qed

lemma scan_loop_take:
  assumes "window_inv a s" and "SHIFT_LIMIT \<le> n" and "n \<le> length a"
  shows "scan_loop (take n a) s = scan_loop a s"
  using assms
proof (induction a s rule: scan_loop.induct)
  case (1 array s)
  show ?case
  proof (cases "s_i s < SHIFT_LIMIT - PEAK_SEARCH_RANGE - PEAK_SEARCH_RANGE")
    case False
    then show ?thesis by (simp add: scan_loop.simps [of _ s])
  next
    case True
    from "1.prems" have len: "SHIFT_LIMIT \<le> length array" by simp
    note eq = loop_body_take [OF "1.prems"(1) True "1.prems"(2,3)]
    show ?thesis
    proof (cases "loop_body array s")
      case (Inl e)
      with eq True show ?thesis by (simp add: scan_loop.simps [of _ s])
    next
      case (Inr st)
      show ?thesis
      proof (cases st)
        case (Next s')
        with Inr have lb: "loop_body array s = Inr (Next s')" by simp
        from loop_body_Next_window_inv [OF "1.prems"(1) True len lb]
        have "scan_loop (take n array) s' = scan_loop array s'"
          using "1.IH" [OF True lb] "1.prems"(2,3) by simp
        with True lb eq show ?thesis by (simp add: scan_loop.simps [of _ s])
      next
        case (Stop r s')
        with Inr True eq show ?thesis by (simp add: scan_loop.simps [of _ s])
      qed
    qed
  qed
qed

lemma initial_state_take:
  assumes "SHIFT_LIMIT \<le> n" and "n \<le> length a"
  shows "initial_state pk cnt (take n a) = initial_state pk cnt a"
proof -
  from assms have len: "SHIFT_LIMIT \<le> length a" "SHIFT_LIMIT \<le> length (take n a)" by simp_all
  from initial_state_window_inv [OF len(1), of pk cnt] obtain s where
    s: "initial_state pk cnt a = Inr s" "window_inv a s" "s_i s = PEAK_SEARCH_RANGE"
      "s_peaks s = pk" "s_peak_count s = cnt" by blast
  from initial_state_window_inv [OF len(2), of pk cnt] obtain t where
    t: "initial_state pk cnt (take n a) = Inr t" "window_inv (take n a) t"
      "s_i t = PEAK_SEARCH_RANGE" "s_peaks t = pk" "s_peak_count t = cnt" by blast
  from t(3) assms(1) have "s_i t + PEAK_SEARCH_RANGE \<le> n"
    by (simp add: SHIFT_LIMIT_def PEAK_SEARCH_RANGE_def)
  with t(2) have "window_inv a t" by (simp add: window_inv_take)
  with s(2) s(3) t(3)
  have "unat (s_prev_min_index t) = unat (s_prev_min_index s)"
    "unat (s_current_min_index t) = unat (s_current_min_index s)"
    unfolding window_inv_def by (auto intro: first_min_unique)
  then have "s_prev_min_index t = s_prev_min_index s"
    "s_current_min_index t = s_current_min_index s"
    by (auto intro: unsigned_word_eqI)
  with s(3-5) t(3-5) have "t = s" by simp
  with s(1) t(1) show ?thesis by simp
qed

section \<open>The recorded peaks\<close>

lemma loop_body_peaks:
  assumes inv: "window_inv a s"
    and run: "s_i s < SHIFT_LIMIT - PEAK_SEARCH_RANGE - PEAK_SEARCH_RANGE"
    and len: "SHIFT_LIMIT \<le> length a"
    and pinv: "peaks_inv pk s"
    and cap: "PEAK_TRACKING_LIMIT \<le> length pk"
  shows "\<exists>nxt s1.
      s1 = s\<lparr>s_peaks := (s_peaks s)[unat (s_peak_count s) := s_current_min_index s],
             s_peak_count := s_peak_count s + 1\<rparr>
    \<and> first_min a (s_i s + PEAK_SEARCH_RANGE) PEAK_SEARCH_RANGE (unat nxt)
    \<and> unat (s_peak_count s1) = unat (s_peak_count s) + 1
    \<and> recorded pk (s_i s + PEAK_SEARCH_RANGE) s1
    \<and> loop_body a s =
        (if sint (a ! unat (s_current_min_index s)) < sint (a ! unat (s_prev_min_index s))
           \<and> sint (a ! unat (s_current_min_index s)) < sint (a ! unat nxt)
         then if PEAK_TRACKING_LIMIT \<le> unat (s_peak_count s) + 1
              then Inr (Stop CapacityReached s1)
              else Inr (Next (advance s1 nxt))
         else Inr (Next (advance s nxt)))"
proof -
  let ?c = "unat (s_peak_count s)"
  let ?s1 = "s\<lparr>s_peaks := (s_peaks s)[?c := s_current_min_index s],
               s_peak_count := s_peak_count s + 1\<rparr>"
  from pinv have rec: "recorded pk (s_i s) s" and c10: "?c < PEAK_TRACKING_LIMIT"
    unfolding peaks_inv_def by simp_all
  from c10 have c255: "?c < 255" by (simp add: PEAK_TRACKING_LIMIT_def)
  from c10 cap have clen: "?c < length pk" by simp
  from rec have plen: "length (s_peaks s) = length pk" unfolding recorded_def by simp
  have suc: "unat (s_peak_count s + 1) = ?c + 1" by (rule unat_u8_succ [OF c255])
  then have "uint (s_peak_count s + 1) = int (?c + 1)" by (metis uint_nat)
  then have idx: "uint (s_peak_count s + 1) - 1 = int ?c" by simp
  have w: "wr (s_peaks s) (uint (s_peak_count s + 1) - 1) (s_current_min_index s)
      = Inr ((s_peaks s)[?c := s_current_min_index s])"
    unfolding idx by (rule wr_in_range) (use clen plen in simp)
  from inv have fc: "first_min a (s_i s) PEAK_SEARCH_RANGE (unat (s_current_min_index s))"
    and ge: "PEAK_SEARCH_RANGE \<le> s_i s"
    unfolding window_inv_def by simp_all
  from first_min_bounds [OF fc] ge
  have A: "recorded pk (s_i s + PEAK_SEARCH_RANGE) ?s1"
    by (intro recorded_append [OF rec clen c255]) simp_all
  from loop_body_eq [OF inv run len] obtain nxt where
    fn: "first_min a (s_i s + PEAK_SEARCH_RANGE) PEAK_SEARCH_RANGE (unat nxt)"
    and lb: "loop_body a s =
        (if sint (a ! unat (s_current_min_index s)) < sint (a ! unat (s_prev_min_index s))
           \<and> sint (a ! unat (s_current_min_index s)) < sint (a ! unat nxt)
         then
           (case wr (s_peaks s) (uint (s_peak_count s + 1) - 1) (s_current_min_index s) of
              Inl e \<Rightarrow> Inl e
            | Inr peaks' \<Rightarrow>
                if PEAK_TRACKING_LIMIT \<le> unat (s_peak_count s + 1)
                then Inr (Stop CapacityReached
                       (s\<lparr>s_peaks := peaks', s_peak_count := s_peak_count s + 1\<rparr>))
                else Inr (Next (advance
                       (s\<lparr>s_peaks := peaks', s_peak_count := s_peak_count s + 1\<rparr>) nxt)))
         else Inr (Next (advance s nxt)))"
    by blast
  have B: "loop_body a s =
        (if sint (a ! unat (s_current_min_index s)) < sint (a ! unat (s_prev_min_index s))
           \<and> sint (a ! unat (s_current_min_index s)) < sint (a ! unat nxt)
         then if PEAK_TRACKING_LIMIT \<le> ?c + 1
              then Inr (Stop CapacityReached ?s1)
              else Inr (Next (advance ?s1 nxt))
         else Inr (Next (advance s nxt)))"
    unfolding lb w suc by simp
  have cnt: "unat (s_peak_count ?s1) = ?c + 1" using suc by simp
  show ?thesis
    by (rule exI [of _ nxt], rule exI [of _ ?s1]) (intro conjI refl fn cnt A B)
qed


lemma loop_body_Next_peaks_inv:
  assumes inv: "window_inv a s"
    and run: "s_i s < SHIFT_LIMIT - PEAK_SEARCH_RANGE - PEAK_SEARCH_RANGE"
    and len: "SHIFT_LIMIT \<le> length a"
    and pinv: "peaks_inv pk s"
    and cap: "PEAK_TRACKING_LIMIT \<le> length pk"
    and nx: "loop_body a s = Inr (Next s')"
  shows "peaks_inv pk s'"
proof -
  from loop_body_peaks [OF inv run len pinv cap] obtain nxt s1 where
    rec1: "recorded pk (s_i s + PEAK_SEARCH_RANGE) s1"
    and cnt: "unat (s_peak_count s1) = unat (s_peak_count s) + 1"
    and lb: "loop_body a s =
        (if sint (a ! unat (s_current_min_index s)) < sint (a ! unat (s_prev_min_index s))
           \<and> sint (a ! unat (s_current_min_index s)) < sint (a ! unat nxt)
         then if PEAK_TRACKING_LIMIT \<le> unat (s_peak_count s) + 1
              then Inr (Stop CapacityReached s1)
              else Inr (Next (advance s1 nxt))
         else Inr (Next (advance s nxt)))"
    and s1: "s1 = s\<lparr>s_peaks := (s_peaks s)[unat (s_peak_count s) := s_current_min_index s],
             s_peak_count := s_peak_count s + 1\<rparr>"
    by blast
  from pinv have rec: "recorded pk (s_i s) s" and c10: "unat (s_peak_count s) < PEAK_TRACKING_LIMIT"
    unfolding peaks_inv_def by simp_all
  from nx [unfolded lb] consider
      (appended) "s' = advance s1 nxt" "\<not> PEAK_TRACKING_LIMIT \<le> unat (s_peak_count s) + 1"
    | (skipped) "s' = advance s nxt"
    by (auto split: if_splits)
  then show ?thesis
  proof cases
    case appended
    have "s_i (advance s1 nxt) = s_i s + PEAK_SEARCH_RANGE" by (simp add: advance_def s1)
    moreover have "s_peak_count (advance s1 nxt) = s_peak_count s1" by (simp add: advance_def)
    ultimately show ?thesis
      unfolding peaks_inv_def appended(1) using rec1 cnt appended(2) by simp
  next
    case skipped
    have "s_i (advance s nxt) = s_i s + PEAK_SEARCH_RANGE" by (simp add: advance_def)
    moreover have "s_peak_count (advance s nxt) = s_peak_count s" by (simp add: advance_def)
    moreover have "recorded pk (s_i s + PEAK_SEARCH_RANGE) s"
      using rec by (rule recorded_mono) simp
    ultimately show ?thesis
      unfolding peaks_inv_def skipped using c10 by simp
  qed
qed

lemma scan_steps_peaks_inv:
  assumes "scan_steps a s0 s" and "window_inv a s0" and "peaks_inv pk s0"
    and "SHIFT_LIMIT \<le> length a" and "PEAK_TRACKING_LIMIT \<le> length pk"
  shows "peaks_inv pk s"
  using assms
proof (induction rule: scan_steps.induct)
  case scan_steps_start
  then show ?case by simp
next
  case (scan_steps_next s s')
  from scan_steps_next.hyps(1) scan_steps_next.prems(1,3)
  have "window_inv a s" by (rule scan_steps_window_inv)
  moreover have "peaks_inv pk s" using scan_steps_next by simp
  ultimately show ?case
    using scan_steps_next.hyps(2,3) scan_steps_next.prems(3,4)
    by (intro loop_body_Next_peaks_inv [of a s pk s']) simp_all
qed

lemma scan_loop_result:
  assumes "window_inv a s" and "peaks_inv pk s"
    and "SHIFT_LIMIT \<le> length a" and "PEAK_TRACKING_LIMIT \<le> length pk"
  shows "\<exists>r sf. scan_loop a s = Inr (r, sf) \<and> r \<noteq> HarmonicRejected
    \<and> recorded pk (s_i sf + PEAK_SEARCH_RANGE) sf
    \<and> unat (s_peak_count sf) \<le> PEAK_TRACKING_LIMIT
    \<and> (r = CapacityReached \<longleftrightarrow> unat (s_peak_count sf) = PEAK_TRACKING_LIMIT)
    \<and> (r = CapacityReached \<longrightarrow>
          s_i sf < SHIFT_LIMIT - PEAK_SEARCH_RANGE - PEAK_SEARCH_RANGE
          \<and> s_peaks sf ! (PEAK_TRACKING_LIMIT - 1) = s_current_min_index sf)
    \<and> (r = RangeExhausted \<longrightarrow>
          \<not> s_i sf < SHIFT_LIMIT - PEAK_SEARCH_RANGE - PEAK_SEARCH_RANGE)"
  using assms
proof (induction a s rule: scan_loop.induct)
  case (1 array s)
  note winv = "1.prems"(1) and pinv = "1.prems"(2) and len = "1.prems"(3) and cap = "1.prems"(4)
  from pinv have rec: "recorded pk (s_i s) s" and c10: "unat (s_peak_count s) < PEAK_TRACKING_LIMIT"
    unfolding peaks_inv_def by simp_all
  show ?case
  proof (cases "s_i s < SHIFT_LIMIT - PEAK_SEARCH_RANGE - PEAK_SEARCH_RANGE")
    case False
    have "recorded pk (s_i s + PEAK_SEARCH_RANGE) s" using rec by (rule recorded_mono) simp
    with False c10 show ?thesis by (subst scan_loop.simps) simp
  next
    case True
    from loop_body_peaks [OF winv True len pinv cap] obtain nxt s1 where
      rec1: "recorded pk (s_i s + PEAK_SEARCH_RANGE) s1"
      and cnt: "unat (s_peak_count s1) = unat (s_peak_count s) + 1"
      and lb: "loop_body array s =
          (if sint (array ! unat (s_current_min_index s)) < sint (array ! unat (s_prev_min_index s))
             \<and> sint (array ! unat (s_current_min_index s)) < sint (array ! unat nxt)
           then if PEAK_TRACKING_LIMIT \<le> unat (s_peak_count s) + 1
                then Inr (Stop CapacityReached s1)
                else Inr (Next (advance s1 nxt))
           else Inr (Next (advance s nxt)))"
      and s1: "s1 = s\<lparr>s_peaks := (s_peaks s)[unat (s_peak_count s) := s_current_min_index s],
               s_peak_count := s_peak_count s + 1\<rparr>"
      by blast
    show ?thesis
    proof (cases "loop_body array s")
      case (Inl e)
      with lb show ?thesis by (auto split: if_splits)
    next
      case (Inr st)
      show ?thesis
      proof (cases st)
        case (Next s')
        with Inr have nx: "loop_body array s = Inr (Next s')" by simp
        have "window_inv array s'" by (rule loop_body_Next_window_inv [OF winv True len nx])
        moreover have "peaks_inv pk s'"
          by (rule loop_body_Next_peaks_inv [OF winv True len pinv cap nx])
        ultimately have "\<exists>r sf. scan_loop array s' = Inr (r, sf) \<and> r \<noteq> HarmonicRejected
          \<and> recorded pk (s_i sf + PEAK_SEARCH_RANGE) sf
          \<and> unat (s_peak_count sf) \<le> PEAK_TRACKING_LIMIT
          \<and> (r = CapacityReached \<longleftrightarrow> unat (s_peak_count sf) = PEAK_TRACKING_LIMIT)
          \<and> (r = CapacityReached \<longrightarrow>
                s_i sf < SHIFT_LIMIT - PEAK_SEARCH_RANGE - PEAK_SEARCH_RANGE
                \<and> s_peaks sf ! (PEAK_TRACKING_LIMIT - 1) = s_current_min_index sf)
          \<and> (r = RangeExhausted \<longrightarrow>
                \<not> s_i sf < SHIFT_LIMIT - PEAK_SEARCH_RANGE - PEAK_SEARCH_RANGE)"
          using "1.IH" [OF True nx] len cap by simp
        moreover have "scan_loop array s = scan_loop array s'"
          using True nx by (subst scan_loop.simps) simp
        ultimately show ?thesis by simp
      next
        case (Stop r s')
        with Inr lb have st: "r = CapacityReached" "s' = s1"
          "PEAK_TRACKING_LIMIT \<le> unat (s_peak_count s) + 1"
          by (auto split: if_splits)
        from st(3) c10 have nine: "unat (s_peak_count s) = PEAK_TRACKING_LIMIT - 1"
          "unat (s_peak_count s1) = PEAK_TRACKING_LIMIT"
          using cnt by simp_all
        from rec have "length (s_peaks s) = length pk" unfolding recorded_def by simp
        with c10 cap have "s_peaks s1 ! (PEAK_TRACKING_LIMIT - 1) = s_current_min_index s1"
          unfolding s1 nine(1) [symmetric] by simp
        moreover have "s_i s1 = s_i s" unfolding s1 by simp
        moreover have "scan_loop array s = Inr (CapacityReached, s1)"
          using True Inr Stop st by (subst scan_loop.simps) simp
        ultimately show ?thesis using rec1 nine(2) True by simp
      qed
    qed
  qed
qed

section \<open>Claims about the peak detector\<close>

text \<open>
  C8.  \<^verbatim>\<open>calculate_peaks\<close> reads the profile only at indices below \<open>SHIFT_LIMIT\<close>: on every
  profile that has (at least) the elements \<open>0 .. SHIFT_LIMIT - 1\<close> no read of the call,
  in \<^verbatim>\<open>min_in_range\<close> or in the loop body, falls outside the profile, and the outcome is the
  one obtained from the profile cut off at \<open>SHIFT_LIMIT\<close>, so the values at and beyond
  \<open>SHIFT_LIMIT\<close> are never examined.  This holds for every content of the output
  parameters.
\<close>

theorem calculate_peaks_reads_below_shift_limit:
  assumes "SHIFT_LIMIT \<le> length array"
  shows "(\<forall>k. calculate_peaks peaks peak_count array \<noteq> Inl (ReadOutOfBounds k))
    \<and> calculate_peaks peaks peak_count (take SHIFT_LIMIT array)
        = calculate_peaks peaks peak_count array"
proof -
  from initial_state_window_inv [OF assms, of peaks peak_count] obtain s0 where
    s0: "initial_state peaks peak_count array = Inr s0" "window_inv array s0" by blast
  have "calculate_peaks peaks peak_count array \<noteq> Inl (ReadOutOfBounds k)" for k
    using scan_loop_no_read_fault [OF s0(2) assms] by (simp add: calculate_peaks_def s0(1))
  moreover have "calculate_peaks peaks peak_count (take SHIFT_LIMIT array)
      = calculate_peaks peaks peak_count array"
    using initial_state_take [OF order_refl assms, of peaks peak_count]
      scan_loop_take [OF s0(2) order_refl assms]
    by (simp add: calculate_peaks_def s0(1))
  ultimately show ?thesis by blast
qed

theorem calculate_peaks_reads_below_shift_limit_witness:
  "(\<forall>k. calculate_peaks (replicate 10 0) 0 (replicate 1250 7) \<noteq> Inl (ReadOutOfBounds k))
   \<and> calculate_peaks (replicate 10 0) 0 (take SHIFT_LIMIT (replicate 1500 7))
       = calculate_peaks (replicate 10 0) 0 (replicate 1500 7)"
proof -
  have "SHIFT_LIMIT \<le> length (replicate 1250 (7 :: i32))"
    "SHIFT_LIMIT \<le> length (replicate 1500 (7 :: i32))"
    by (simp_all add: SHIFT_LIMIT_def)
  from calculate_peaks_reads_below_shift_limit [OF this(1), of "replicate 10 0" 0]
    calculate_peaks_reads_below_shift_limit [OF this(2), of "replicate 10 0" 0]
  show ?thesis by blast
qed

text \<open>
  C3.  Whenever the loop condition holds during a call of \<^verbatim>\<open>calculate_peaks\<close> (on a profile
  with at least \<open>SHIFT_LIMIT\<close> elements), the counter is a multiple of the window width,
  and \<open>prev_min_index\<close>, \<open>current_min_index\<close> and the \<open>next_min_index\<close> computed in the body
  are the minima of the previous, current and next 15-wide window, each the first
  occurrence of the least value of its window.  The candidate test succeeds exactly when
  the value at \<open>current_min_index\<close> is strictly less than both the value at
  \<open>prev_min_index\<close> and the value at \<open>next_min_index\<close>; it fails when either comparison is
  an equality.  The body goes on with unchanged output parameters exactly when the test
  fails.
\<close>

theorem candidate_declared_iff_strict_dip:
  assumes "SHIFT_LIMIT \<le> length array"
    and "initial_state peaks peak_count array = Inr s0"
    and "scan_steps array s0 s"
    and "s_i s < SHIFT_LIMIT - PEAK_SEARCH_RANGE - PEAK_SEARCH_RANGE"
  shows "\<exists>nxt.
      min_in_range array (word_of_nat (s_i s + PEAK_SEARCH_RANGE)) (word_of_nat PEAK_SEARCH_RANGE)
        = Inr nxt
    \<and> PEAK_SEARCH_RANGE dvd s_i s \<and> PEAK_SEARCH_RANGE \<le> s_i s
    \<and> first_min array (s_i s - PEAK_SEARCH_RANGE) PEAK_SEARCH_RANGE (unat (s_prev_min_index s))
    \<and> first_min array (s_i s) PEAK_SEARCH_RANGE (unat (s_current_min_index s))
    \<and> first_min array (s_i s + PEAK_SEARCH_RANGE) PEAK_SEARCH_RANGE (unat nxt)
    \<and> candidate_test array (s_prev_min_index s) (s_current_min_index s) nxt =
        Inr (sint (array ! unat (s_current_min_index s)) < sint (array ! unat (s_prev_min_index s))
           \<and> sint (array ! unat (s_current_min_index s)) < sint (array ! unat nxt))
    \<and> (sint (array ! unat (s_current_min_index s)) = sint (array ! unat (s_prev_min_index s))
         \<or> sint (array ! unat (s_current_min_index s)) = sint (array ! unat nxt)
       \<longrightarrow> candidate_test array (s_prev_min_index s) (s_current_min_index s) nxt = Inr False)
    \<and> (loop_body array s = Inr (Next (advance s nxt))
       \<longleftrightarrow> \<not> (sint (array ! unat (s_current_min_index s)) < sint (array ! unat (s_prev_min_index s))
           \<and> sint (array ! unat (s_current_min_index s)) < sint (array ! unat nxt)))"
proof -
  from initial_state_window_inv [OF assms(1), of peaks peak_count] assms(2)
  have "window_inv array s0" by auto
  with assms(3) have inv: "window_inv array s" using assms(1) by (rule scan_steps_window_inv)
  let ?p = "unat (s_prev_min_index s)" and ?c = "unat (s_current_min_index s)"
  from loop_body_eq [OF inv assms(4,1)] obtain nxt where
    nxt: "min_in_range array (word_of_nat (s_i s + PEAK_SEARCH_RANGE))
      (word_of_nat PEAK_SEARCH_RANGE) = Inr nxt"
    and fn: "first_min array (s_i s + PEAK_SEARCH_RANGE) PEAK_SEARCH_RANGE (unat nxt)"
    and ct: "candidate_test array (s_prev_min_index s) (s_current_min_index s) nxt =
        Inr (sint (array ! ?c) < sint (array ! ?p) \<and> sint (array ! ?c) < sint (array ! unat nxt))"
    and lb: "loop_body array s =
        (if sint (array ! ?c) < sint (array ! ?p) \<and> sint (array ! ?c) < sint (array ! unat nxt)
         then
           (case wr (s_peaks s) (uint (s_peak_count s + 1) - 1) (s_current_min_index s) of
              Inl e \<Rightarrow> Inl e
            | Inr peaks' \<Rightarrow>
                if PEAK_TRACKING_LIMIT \<le> unat (s_peak_count s + 1)
                then Inr (Stop CapacityReached
                       (s\<lparr>s_peaks := peaks', s_peak_count := s_peak_count s + 1\<rparr>))
                else Inr (Next (advance
                       (s\<lparr>s_peaks := peaks', s_peak_count := s_peak_count s + 1\<rparr>) nxt)))
         else Inr (Next (advance s nxt)))"
    by blast
  have moved: "advance (s\<lparr>s_peaks := pk', s_peak_count := s_peak_count s + 1\<rparr>) nxt
      \<noteq> advance s nxt" for pk'
  proof
    assume "advance (s\<lparr>s_peaks := pk', s_peak_count := s_peak_count s + 1\<rparr>) nxt = advance s nxt"
    then have "s_peak_count (advance (s\<lparr>s_peaks := pk', s_peak_count := s_peak_count s + 1\<rparr>) nxt)
      = s_peak_count (advance s nxt)" by simp
    then show False by (simp add: advance_def)
  qed
  have iff: "loop_body array s = Inr (Next (advance s nxt))
       \<longleftrightarrow> \<not> (sint (array ! ?c) < sint (array ! ?p) \<and> sint (array ! ?c) < sint (array ! unat nxt))"
    unfolding lb using moved by (auto split: sum.splits)
  have eq: "candidate_test array (s_prev_min_index s) (s_current_min_index s) nxt = Inr False"
    if "sint (array ! ?c) = sint (array ! ?p) \<or> sint (array ! ?c) = sint (array ! unat nxt)"
    unfolding ct using that by auto
  from inv have "PEAK_SEARCH_RANGE dvd s_i s" "PEAK_SEARCH_RANGE \<le> s_i s"
    "first_min array (s_i s - PEAK_SEARCH_RANGE) PEAK_SEARCH_RANGE ?p"
    "first_min array (s_i s) PEAK_SEARCH_RANGE ?c"
    unfolding window_inv_def by simp_all
  with nxt fn ct eq iff show ?thesis by blast
qed

lemma min_in_range_eqI:
  assumes "unat b + unat r \<le> length a" and "unat b + unat r \<le> 65536" and "0 < unat r"
    and "first_min a (unat b) (unat r) k"
  shows "min_in_range a b r = Inr (word_of_nat k)"
proof -
  from min_in_range_first_min [OF assms(1-3)] obtain m where
    m: "min_in_range a b r = Inr m" "first_min a (unat b) (unat r) (unat m)" by blast
  from m(2) assms(4) have "unat m = k" by (rule first_min_unique)
  then have "word_of_nat k = m" by auto
  with m(1) show ?thesis by simp
qed

theorem candidate_declared_iff_strict_dip_witness:
  "\<exists>nxt.
      min_in_range (replicate 15 5 @ 1 # replicate 1484 5)
        (word_of_nat (15 + PEAK_SEARCH_RANGE)) (word_of_nat PEAK_SEARCH_RANGE) = Inr nxt
    \<and> first_min (replicate 15 5 @ 1 # replicate 1484 5) (15 + PEAK_SEARCH_RANGE)
        PEAK_SEARCH_RANGE (unat nxt)
    \<and> candidate_test (replicate 15 5 @ 1 # replicate 1484 5) 0 15 nxt = Inr True
    \<and> loop_body (replicate 15 5 @ 1 # replicate 1484 5)
        \<lparr>s_i = 15, s_prev_min_index = 0, s_current_min_index = 15, s_peaks = replicate 10 0,
         s_peak_count = 0\<rparr>
      \<noteq> Inr (Next (advance
        \<lparr>s_i = 15, s_prev_min_index = 0, s_current_min_index = 15, s_peaks = replicate 10 0,
         s_peak_count = 0\<rparr> nxt))"
proof -
  let ?a = "replicate 15 5 @ 1 # replicate 1484 5 :: i32 list"
  let ?s = "\<lparr>s_i = 15, s_prev_min_index = 0, s_current_min_index = 15,
    s_peaks = replicate 10 0, s_peak_count = 0\<rparr>"
  have len: "SHIFT_LIMIT \<le> length ?a" by (simp add: SHIFT_LIMIT_def)
  have "first_min ?a (unat (0 :: u16)) (unat (word_of_nat PEAK_SEARCH_RANGE :: u16)) 0"
    by (auto simp: first_min_def PEAK_SEARCH_RANGE_def nth_append)
  then have p: "min_in_range ?a 0 (word_of_nat PEAK_SEARCH_RANGE) = Inr 0"
    by (intro min_in_range_eqI [where k = 0, simplified]) (simp_all add: PEAK_SEARCH_RANGE_def)
  have "first_min ?a (unat (word_of_nat PEAK_SEARCH_RANGE :: u16))
      (unat (word_of_nat PEAK_SEARCH_RANGE :: u16)) 15"
    by (auto simp: first_min_def PEAK_SEARCH_RANGE_def nth_append nth_Cons')
  then have c: "min_in_range ?a (word_of_nat PEAK_SEARCH_RANGE) (word_of_nat PEAK_SEARCH_RANGE)
      = Inr 15"
    by (intro min_in_range_eqI [where k = 15, simplified]) (simp_all add: PEAK_SEARCH_RANGE_def)
  have init: "initial_state (replicate 10 0) 0 ?a = Inr ?s"
    unfolding initial_state_def p c by (simp add: PEAK_SEARCH_RANGE_def)
  have run: "s_i ?s < SHIFT_LIMIT - PEAK_SEARCH_RANGE - PEAK_SEARCH_RANGE"
    by (simp add: SHIFT_LIMIT_def PEAK_SEARCH_RANGE_def)
  from candidate_declared_iff_strict_dip [OF len init scan_steps_start run]
  obtain nxt where
    nxt: "min_in_range ?a (word_of_nat (s_i ?s + PEAK_SEARCH_RANGE))
      (word_of_nat PEAK_SEARCH_RANGE) = Inr nxt"
    and fn: "first_min ?a (s_i ?s + PEAK_SEARCH_RANGE) PEAK_SEARCH_RANGE (unat nxt)"
    and ct: "candidate_test ?a (s_prev_min_index ?s) (s_current_min_index ?s) nxt =
        Inr (sint (?a ! unat (s_current_min_index ?s)) < sint (?a ! unat (s_prev_min_index ?s))
           \<and> sint (?a ! unat (s_current_min_index ?s)) < sint (?a ! unat nxt))"
    and iff: "loop_body ?a ?s = Inr (Next (advance ?s nxt))
       \<longleftrightarrow> \<not> (sint (?a ! unat (s_current_min_index ?s)) < sint (?a ! unat (s_prev_min_index ?s))
           \<and> sint (?a ! unat (s_current_min_index ?s)) < sint (?a ! unat nxt))"
    by blast
  from first_min_bounds [OF fn] have b: "30 \<le> unat nxt" "unat nxt < 45"
    by (simp_all add: PEAK_SEARCH_RANGE_def)
  then have "?a ! unat nxt = 5" by (simp add: nth_append nth_Cons')
  then have dip: "sint (?a ! unat (s_current_min_index ?s)) < sint (?a ! unat (s_prev_min_index ?s))
           \<and> sint (?a ! unat (s_current_min_index ?s)) < sint (?a ! unat nxt)"
    by (simp add: nth_append)
  from nxt fn ct iff dip show ?thesis by auto
qed


lemma initial_peaks_inv:
  assumes "s_peaks s0 = pk" and "s_peak_count s0 = 0"
  shows "peaks_inv pk s0"
  using assms by (simp add: peaks_inv_def recorded_def PEAK_TRACKING_LIMIT_def)

lemma harmonic_rejection_unreachable:
  assumes "SHIFT_LIMIT \<le> length array"
    and "initial_state peaks peak_count array = Inr s0"
    and "scan_steps array s0 s"
    and "s_i s < SHIFT_LIMIT - PEAK_SEARCH_RANGE - PEAK_SEARCH_RANGE"
    and "min_in_range array (word_of_nat (s_i s + PEAK_SEARCH_RANGE))
      (word_of_nat PEAK_SEARCH_RANGE) = Inr nxt"
    and "candidate_test array (s_prev_min_index s) (s_current_min_index s) nxt = Inr True"
  shows "harmonic_test array (s_current_min_index s) = Inr False"
    and "sint (array ! unat (s_current_min_index s))
      < sint (array ! (unat (s_current_min_index s) - 1))"
    and "loop_body array s \<noteq> Inr (Stop HarmonicRejected s')"
proof -
  let ?p = "unat (s_prev_min_index s)" and ?c = "unat (s_current_min_index s)"
  from initial_state_window_inv [OF assms(1), of peaks peak_count] assms(2)
  have "window_inv array s0" by auto
  with assms(3) have inv: "window_inv array s" using assms(1) by (rule scan_steps_window_inv)
  then have ge: "PEAK_SEARCH_RANGE \<le> s_i s"
    and fp: "first_min array (s_i s - PEAK_SEARCH_RANGE) PEAK_SEARCH_RANGE ?p"
    and fc: "first_min array (s_i s) PEAK_SEARCH_RANGE ?c"
    unfolding window_inv_def by simp_all
  from loop_body_eq [OF inv assms(4,1)] assms(5) obtain
    ct: "candidate_test array (s_prev_min_index s) (s_current_min_index s) nxt =
        Inr (sint (array ! ?c) < sint (array ! ?p) \<and> sint (array ! ?c) < sint (array ! unat nxt))"
    and lb: "loop_body array s =
        (if sint (array ! ?c) < sint (array ! ?p) \<and> sint (array ! ?c) < sint (array ! unat nxt)
         then
           (case wr (s_peaks s) (uint (s_peak_count s + 1) - 1) (s_current_min_index s) of
              Inl e \<Rightarrow> Inl e
            | Inr peaks' \<Rightarrow>
                if PEAK_TRACKING_LIMIT \<le> unat (s_peak_count s + 1)
                then Inr (Stop CapacityReached
                       (s\<lparr>s_peaks := peaks', s_peak_count := s_peak_count s + 1\<rparr>))
                else Inr (Next (advance
                       (s\<lparr>s_peaks := peaks', s_peak_count := s_peak_count s + 1\<rparr>) nxt)))
         else Inr (Next (advance s nxt)))"
    by auto
  from ct assms(6) have less: "sint (array ! ?c) < sint (array ! ?p)" by simp
  have "PEAK_SEARCH_RANGE \<le> s_i s" "0 < PEAK_SEARCH_RANGE"
    using ge by (simp_all add: PEAK_SEARCH_RANGE_def)
  from predecessor_not_lower [OF fp fc this less]
  have nl: "\<not> sint (array ! (?c - 1)) < sint (array ! ?c)" .
  from first_min_bounds [OF fc] ge assms(4,1)
  have c: "0 < ?c" "?c < length array"
    by (simp_all add: PEAK_SEARCH_RANGE_def SHIFT_LIMIT_def)
  from harmonic_test_value [OF c] nl
  show "harmonic_test array (s_current_min_index s) = Inr False" by simp
  show "sint (array ! ?c) < sint (array ! (?c - 1))"
  proof (cases "?c = s_i s")
    case True
    from ge have "s_i s - PEAK_SEARCH_RANGE \<le> s_i s - 1"
      "s_i s - 1 < s_i s - PEAK_SEARCH_RANGE + PEAK_SEARCH_RANGE"
      by (simp_all add: PEAK_SEARCH_RANGE_def)
    with fp have "sint (array ! ?p) \<le> sint (array ! (s_i s - 1))" by (rule first_min_le)
    with less True show ?thesis by simp
  next
    case False
    with first_min_bounds [OF fc] have "s_i s \<le> ?c - 1" "?c - 1 < ?c" by linarith+
    with fc show ?thesis by (rule first_min_less)
  qed
  show "loop_body array s \<noteq> Inr (Stop HarmonicRejected s')"
    unfolding lb by (auto split: sum.splits)
qed

section \<open>The frequency reducer\<close>

lemma f32_of_int_0: "f32_of_int 0 = 0"
  by (simp add: f32_of_int_def round_f32_def)

lemma avg_loop_fold:
  assumes "unat n \<le> length peaks" and "i \<le> unat n"
  shows "avg_loop peaks n i sm =
    Inr (foldl f32_add sm
      (map (\<lambda>r. f32_div (f32_of_int (uint (peaks ! (r - 1)))) (f32_of_int (int r)))
        [i + 1..<unat n + 1]))"
  using assms
proof (induction peaks n i sm rule: avg_loop.induct)
  case (1 peaks peak_count i sm)
  show ?case
  proof (cases "i < unat peak_count")
    case False
    with "1.prems" show ?thesis by (subst avg_loop.simps) simp
  next
    case True
    with "1.prems" have r: "rd peaks (int i) = Inr (peaks ! i)" by (intro rd_in_range) simp
    from True have upt: "[i + 1..<unat peak_count + 1] = (i + 1) # [i + 1 + 1..<unat peak_count + 1]"
      by (simp add: upt_conv_Cons)
    have "avg_loop peaks peak_count (i + 1)
        (f32_add sm (f32_div (f32_of_int (uint (peaks ! i))) (f32_of_int (int i + 1)))) =
      Inr (foldl f32_add (f32_add sm (f32_div (f32_of_int (uint (peaks ! i))) (f32_of_int (int i + 1))))
        (map (\<lambda>r. f32_div (f32_of_int (uint (peaks ! (r - 1)))) (f32_of_int (int r)))
          [i + 1 + 1..<unat peak_count + 1]))"
      by (rule "1.IH" [OF True r]) (use "1.prems" True in simp_all)
    then show ?thesis
      using True r unfolding upt by (subst avg_loop.simps) (simp add: add.commute)
  qed
qed

lemma f32_of_int_default: "f32_of_int DEFAULT_VAL = 100"
  unfolding DEFAULT_VAL_def by code_simp

lemma calculate_avg_wavelength_eq:
  assumes "unat peak_count \<le> length peaks"
  shows "calculate_avg_wavelength peaks peak_count =
      Inr (rank_normalised_mean peaks (unat peak_count))"
proof -
  have zero: "peak_count = 0 \<longleftrightarrow> unat peak_count = 0" by (simp add: unat_eq_0)
  have loop: "avg_loop peaks peak_count 0 (f32_of_int 0) =
    Inr (foldl f32_add 0
      (map (\<lambda>r. f32_div (f32_of_int (uint (peaks ! (r - 1)))) (f32_of_int (int r)))
        [1..<unat peak_count + 1]))"
    using avg_loop_fold [OF assms, of 0 "f32_of_int 0"] by (simp add: f32_of_int_0)
  show ?thesis
    unfolding calculate_avg_wavelength_def rank_normalised_mean_def loop
    using zero by simp
qed

text \<open>
  C2.  For a peak list that holds the \<open>peak_count\<close> entries read,
  \<^verbatim>\<open>calculate_avg_wavelength\<close> returns the default wavelength \<open>DEFAULT_VAL = 100\<close> when
  \<open>peak_count = 0\<close>, as an ordinary value and not as a fault; for \<open>peak_count = n \<ge> 1\<close> it
  returns the sum over the ranks \<open>r = 1..n\<close> of \<open>peaks[r - 1] / r\<close>, divided by \<open>n\<close>.  The
  function computes on \<^verbatim>\<open>float\<close>: every quotient and every partial sum, taken in the order
  of the ranks, is rounded to single precision.
\<close>

theorem calculate_avg_wavelength_rank_mean:
  assumes "unat peak_count \<le> length peaks"
  shows "calculate_avg_wavelength peaks peak_count =
      Inr (rank_normalised_mean peaks (unat peak_count))
    \<and> (peak_count = 0 \<longrightarrow> calculate_avg_wavelength peaks peak_count = Inr 100)
    \<and> (peak_count \<noteq> 0 \<longrightarrow>
        calculate_avg_wavelength peaks peak_count =
          Inr (f32_div
            (foldl f32_add 0
              (map (\<lambda>r. f32_div (f32_of_int (uint (peaks ! (r - 1)))) (f32_of_int (int r)))
                [1..<unat peak_count + 1]))
            (f32_of_int (int (unat peak_count)))))"
proof -
  note hundred = f32_of_int_default
  have zero: "peak_count = 0 \<longleftrightarrow> unat peak_count = 0" by (simp add: unat_eq_0)
  note main = calculate_avg_wavelength_eq [OF assms]
  moreover have "calculate_avg_wavelength peaks peak_count = Inr 100" if "peak_count = 0"
    using that hundred by (simp add: calculate_avg_wavelength_def)
  moreover have "calculate_avg_wavelength peaks peak_count =
          Inr (f32_div
            (foldl f32_add 0
              (map (\<lambda>r. f32_div (f32_of_int (uint (peaks ! (r - 1)))) (f32_of_int (int r)))
                [1..<unat peak_count + 1]))
            (f32_of_int (int (unat peak_count))))" if "peak_count \<noteq> 0"
    unfolding main rank_normalised_mean_def using that zero by simp
  ultimately show ?thesis by blast
qed

theorem calculate_avg_wavelength_rank_mean_witness:
  "calculate_avg_wavelength [] 0 = Inr 100
   \<and> calculate_avg_wavelength [100, 200, 300] 3 = Inr 100
   \<and> calculate_avg_wavelength [100, 200, 100] 3 = Inr (10194489 / 131072)"
proof -
  have "unat (0 :: u8) \<le> length ([] :: u16 list)" by simp
  from calculate_avg_wavelength_rank_mean [OF this]
  have A: "calculate_avg_wavelength [] 0 = Inr 100" by blast
  have "rank_normalised_mean [100, 200, 300] 3 = 100" by code_simp
  then have B: "calculate_avg_wavelength [100, 200, 300] 3 = Inr 100"
    using calculate_avg_wavelength_rank_mean [of 3 "[100, 200, 300]"] by simp
  have "rank_normalised_mean [100, 200, 100] 3 = 10194489 / 131072" by code_simp
  then have C: "calculate_avg_wavelength [100, 200, 100] 3 = Inr (10194489 / 131072)"
    using calculate_avg_wavelength_rank_mean [of 3 "[100, 200, 100]"] by simp
  from A B C show ?thesis by blast
qed

section \<open>Positivity of the average wavelength\<close>

lemma binade_le:
  assumes "0 < x"
  shows "2 powi (binade x) \<le> x"
proof (cases "1 \<le> x")
  case True
  then have n: "0 < \<lfloor>x\<rfloor>" by simp
  from bitlen_bounds [OF n] have b: "2 ^ nat (bitlen \<lfloor>x\<rfloor> - 1) \<le> \<lfloor>x\<rfloor>" by simp
  from n have "1 \<le> bitlen \<lfloor>x\<rfloor>"
    using bitlen_eq_zero_iff [of "\<lfloor>x\<rfloor>"] bitlen_nonneg [of "\<lfloor>x\<rfloor>"] by linarith
  then have "(2 :: rat) powi (bitlen \<lfloor>x\<rfloor> - 1) = 2 ^ nat (bitlen \<lfloor>x\<rfloor> - 1)"
    by (simp add: power_int_def)
  also have "\<dots> = of_int (2 ^ nat (bitlen \<lfloor>x\<rfloor> - 1))" by simp
  also have "\<dots> \<le> of_int \<lfloor>x\<rfloor>" using b by (simp only: of_int_le_iff)
  also have "\<dots> \<le> x" by simp
  finally show ?thesis using True by (simp add: binade_def)
next
  case False
  let ?m = "\<lceil>1 / x\<rceil>"
  let ?k = "bitlen (?m - 1)"
  from False assms have "1 < 1 / x" by simp
  then have m: "0 < ?m - 1" by linarith
  from bitlen_bounds [OF m] have "?m - 1 < 2 ^ nat ?k" by simp
  then have "?m \<le> 2 ^ nat ?k" by simp
  then have "(of_int ?m :: rat) \<le> of_int (2 ^ nat ?k)" by (simp only: of_int_le_iff)
  also have "\<dots> = 2 ^ nat ?k" by simp
  finally have "(of_int ?m :: rat) \<le> 2 ^ nat ?k" .
  moreover have "1 / x \<le> of_int ?m" by (rule le_of_int_ceiling)
  ultimately have "1 / x \<le> 2 ^ nat ?k" by (rule order_trans [rotated])
  with assms have "1 / 2 ^ nat ?k \<le> x"
    by (simp add: field_simps)
  moreover have "0 \<le> ?k" by (rule bitlen_nonneg)
  then have "(2 :: rat) powi (- ?k) = 1 / 2 ^ nat ?k"
    by (simp add: power_int_def field_simps)
  ultimately show ?thesis using False by (simp add: binade_def)
qed

lemma round_even_ge_floor: "\<lfloor>q\<rfloor> \<le> round_even q"
  by (simp add: round_even_def Let_def)

lemma round_f32_pos:
  assumes "0 < x"
  shows "0 < round_f32 x"
proof -
  let ?u = "(2 :: rat) powi (binade x - 23)"
  have u: "0 < ?u" by (rule zero_less_power_int) simp
  have "?u \<le> 2 powi (binade x)" by (rule power_int_increasing) simp_all
  also have "\<dots> \<le> x" by (rule binade_le [OF assms])
  finally have "1 \<le> x / ?u" using u by (simp add: field_simps)
  then have "1 \<le> \<lfloor>x / ?u\<rfloor>" by simp
  with round_even_ge_floor [of "x / ?u"] have "0 < round_even (x / ?u)" by linarith
  then have "0 < (of_int (round_even (x / ?u)) :: rat) * ?u" using u by simp
  with assms show ?thesis by (simp add: round_f32_def Let_def)
qed

lemma f32_of_int_pos: "0 < n \<Longrightarrow> 0 < f32_of_int n"
  unfolding f32_of_int_def by (rule round_f32_pos) simp

lemma f32_div_pos: "0 < x \<Longrightarrow> 0 < y \<Longrightarrow> 0 < f32_div x y"
  unfolding f32_div_def by (rule round_f32_pos) simp

lemma f32_add_pos: "0 \<le> x \<Longrightarrow> 0 < y \<Longrightarrow> 0 < f32_add x y"
  unfolding f32_add_def by (rule round_f32_pos) simp

lemma foldl_f32_add_pos:
  assumes "0 < s" and "\<forall>x \<in> set xs. 0 < x"
  shows "0 < foldl f32_add s xs"
  using assms
proof (induction xs arbitrary: s)
  case Nil
  then show ?case by simp
next
  case (Cons x xs)
  from Cons.prems have "0 < f32_add s x" by (intro f32_add_pos) simp_all
  with Cons show ?case by simp
qed

lemma rank_normalised_mean_pos:
  assumes "\<forall>j < n. 0 < unat (peaks ! j)"
  shows "0 < rank_normalised_mean peaks n"
proof (cases n)
  case 0
  then show ?thesis
    by (simp add: rank_normalised_mean_def DEFAULT_VAL_def f32_of_int_pos)
next
  case (Suc k)
  let ?q = "\<lambda>r. f32_div (f32_of_int (uint (peaks ! (r - 1)))) (f32_of_int (int r))"
  have tpos: "0 < ?q r" if "1 \<le> r" "r < n + 1" for r
  proof -
    from that assms have "0 < unat (peaks ! (r - 1))" by simp
    then have "0 < int (unat (peaks ! (r - 1)))" by (simp only: of_nat_0_less_iff)
    then have "0 < uint (peaks ! (r - 1))" by simp
    with that(1) show ?thesis by (intro f32_div_pos f32_of_int_pos) simp_all
  qed
  have upt: "[1..<n + 1] = 1 # [Suc 1..<n + 1]" by (rule upt_conv_Cons) (use Suc in simp)
  have "0 < foldl f32_add (f32_add 0 (?q 1)) (map ?q [Suc 1..<n + 1])"
  proof (rule foldl_f32_add_pos)
    show "0 < f32_add 0 (?q 1)" using Suc by (intro f32_add_pos tpos) simp_all
    show "\<forall>x \<in> set (map ?q [Suc 1..<n + 1]). 0 < x" using tpos by auto
  qed
  then have "0 < foldl f32_add 0 (map ?q [1..<n + 1])" unfolding upt by simp
  moreover have "0 < f32_of_int (int n)" using Suc by (intro f32_of_int_pos) simp
  ultimately show ?thesis
    unfolding rank_normalised_mean_def using Suc by (simp add: f32_div_pos)
qed

section \<open>The whole pipeline\<close>

lemma calculate_interference_pwr_value:
  assumes "length samples = NUM_SAMPLES" and "shift < NUM_SAMPLES"
  shows "calculate_interference_pwr (int shift) samples =
      Inr (if \<exists>n \<le> NUM_SAMPLES - shift. INTERFERENCE_THRESHOLD < partial_power samples shift n
           then INT_MAX
           else word_of_int (partial_power samples shift (NUM_SAMPLES - shift)))"
  unfolding calculate_interference_pwr_def
  by (rule pwr_loop_result)
    (use assms in \<open>simp_all add: partial_power_0 INTERFERENCE_THRESHOLD_def\<close>)

lemma profile_loop_result:
  assumes "length samples = NUM_SAMPLES" and "length acc = NUM_SAMPLES"
    and "shift \<le> NUM_SAMPLES"
  shows "\<exists>p. profile_loop samples shift acc = Inr p \<and> length p = NUM_SAMPLES
    \<and> (\<forall>k. shift \<le> k \<and> k < NUM_SAMPLES \<longrightarrow>
          calculate_interference_pwr (int k) samples = Inr (p ! k))
    \<and> (\<forall>k < shift. p ! k = acc ! k)"
  using assms
proof (induction samples shift acc rule: profile_loop.induct)
  case (1 array shift interference)
  show ?case
  proof (cases "shift < NUM_SAMPLES")
    case False
    with "1.prems" show ?thesis by (subst profile_loop.simps) auto
  next
    case True
    from calculate_interference_pwr_value [OF "1.prems"(1) True] obtain v where
      v: "calculate_interference_pwr (int shift) array = Inr v" by blast
    from True "1.prems"(2) have w: "wr interference (int shift) v = Inr (interference[shift := v])"
      by (intro wr_in_range) simp
    have "\<exists>p. profile_loop array (shift + 1) (interference[shift := v]) = Inr p
      \<and> length p = NUM_SAMPLES
      \<and> (\<forall>k. shift + 1 \<le> k \<and> k < NUM_SAMPLES \<longrightarrow>
            calculate_interference_pwr (int k) array = Inr (p ! k))
      \<and> (\<forall>k < shift + 1. p ! k = interference[shift := v] ! k)"
      by (rule "1.IH" [OF True v w]) (use "1.prems" True in simp_all)
    then obtain p where p: "profile_loop array (shift + 1) (interference[shift := v]) = Inr p"
      "length p = NUM_SAMPLES"
      "\<And>k. shift + 1 \<le> k \<Longrightarrow> k < NUM_SAMPLES \<Longrightarrow>
        calculate_interference_pwr (int k) array = Inr (p ! k)"
      "\<And>k. k < shift + 1 \<Longrightarrow> p ! k = interference[shift := v] ! k"
      by blast
    have here: "p ! shift = v" using p(4) [of shift] True "1.prems"(2) by simp
    have "calculate_interference_pwr (int k) array = Inr (p ! k)"
      if "shift \<le> k" "k < NUM_SAMPLES" for k
    proof (cases "k = shift")
      case True
      with v here show ?thesis by simp
    next
      case False
      with that show ?thesis by (intro p(3)) simp_all
    qed
    moreover have "p ! k = interference ! k" if "k < shift" for k
      using p(4) [of k] that by simp
    moreover have "profile_loop array shift interference = Inr p"
      using True v w p(1) by (subst profile_loop.simps) simp
    ultimately show ?thesis using p(2) by blast
  qed
qed

lemma smooth_loop_result:
  assumes "NUM_SAMPLES + SMA_WIDTH \<le> length raw" and "length samples = NUM_SAMPLES"
    and "i \<le> NUM_SAMPLES"
  shows "\<exists>out. smooth_loop raw i samples = Inr out \<and> length out = NUM_SAMPLES
    \<and> (\<forall>k. i \<le> k \<and> k < NUM_SAMPLES \<longrightarrow>
          calculate_sma (word_of_nat k) raw = Inr (ucast (out ! k)))
    \<and> (\<forall>k < i. out ! k = samples ! k)"
  using assms
proof (induction raw i samples rule: smooth_loop.induct)
  case (1 samples_buff i samples)
  show ?case
  proof (cases "i < NUM_SAMPLES")
    case False
    with "1.prems" show ?thesis by (subst smooth_loop.simps) auto
  next
    case True
    then have ui: "unat (word_of_nat i :: u16) = i"
      by (intro unat_u16_of_nat) (simp add: NUM_SAMPLES_def)
    then have "unat (word_of_nat i :: u16) + SMA_WIDTH + 1 \<le> length samples_buff"
      using True "1.prems"(1) by simp
    from calculate_sma_value [OF this] obtain r where
      r: "calculate_sma (word_of_nat i) samples_buff = Inr r"
      "unat r = window_sum samples_buff (unat (word_of_nat i :: u16)) (SMA_WIDTH + 1)
        div (SMA_WIDTH + 1)"
      by blast
    have "window_sum samples_buff (unat (word_of_nat i :: u16)) (SMA_WIDTH + 1)
        \<le> 255 * (SMA_WIDTH + 1)" by (rule window_sum_bound)
    then have small: "unat r \<le> 255" unfolding r(2) by (simp add: SMA_WIDTH_def)
    from True "1.prems"(2) have w: "wr samples (int i) (ucast r) = Inr (samples[i := ucast r])"
      by (intro wr_in_range) simp
    have "\<exists>out. smooth_loop samples_buff (i + 1) (samples[i := ucast r]) = Inr out
      \<and> length out = NUM_SAMPLES
      \<and> (\<forall>k. i + 1 \<le> k \<and> k < NUM_SAMPLES \<longrightarrow>
            calculate_sma (word_of_nat k) samples_buff = Inr (ucast (out ! k)))
      \<and> (\<forall>k < i + 1. out ! k = samples[i := ucast r] ! k)"
      by (rule "1.IH" [OF True r(1) w]) (use "1.prems" True in simp_all)
    then obtain out where out: "smooth_loop samples_buff (i + 1) (samples[i := ucast r]) = Inr out"
      "length out = NUM_SAMPLES"
      "\<And>k. i + 1 \<le> k \<Longrightarrow> k < NUM_SAMPLES \<Longrightarrow>
        calculate_sma (word_of_nat k) samples_buff = Inr (ucast (out ! k))"
      "\<And>k. k < i + 1 \<Longrightarrow> out ! k = samples[i := ucast r] ! k"
      by blast
    have "out ! i = ucast r" using out(4) [of i] True "1.prems"(2) by simp
    then have here: "(ucast (out ! i) :: u16) = r" using narrow_widen [OF small] by simp
    have "calculate_sma (word_of_nat k) samples_buff = Inr (ucast (out ! k))"
      if "i \<le> k" "k < NUM_SAMPLES" for k
    proof (cases "k = i")
      case True
      with r(1) here show ?thesis by simp
    next
      case False
      with that show ?thesis by (intro out(3)) simp_all
    qed
    moreover have "out ! k = samples ! k" if "k < i" for k
      using out(4) [of k] that by simp
    moreover have "smooth_loop samples_buff i samples = Inr out"
      using True r(1) w out(1) by (subst smooth_loop.simps) simp
    ultimately show ?thesis using out(2) by blast
  qed
qed


lemma calculate_peaks_result:
  assumes "SHIFT_LIMIT \<le> length array" and "PEAK_TRACKING_LIMIT \<le> length peaks"
  shows "\<exists>reason sf. calculate_peaks peaks 0 array = Inr (reason, sf)
    \<and> recorded peaks (s_i sf + PEAK_SEARCH_RANGE) sf
    \<and> unat (s_peak_count sf) \<le> PEAK_TRACKING_LIMIT"
proof -
  from initial_state_window_inv [OF assms(1), of peaks 0] obtain s0 where
    s0: "initial_state peaks 0 array = Inr s0" "window_inv array s0"
      "s_peaks s0 = peaks" "s_peak_count s0 = 0" by blast
  from s0(3,4) have p0: "peaks_inv peaks s0" by (rule initial_peaks_inv)
  from scan_loop_result [OF s0(2) p0 assms] obtain r sf where
    "scan_loop array s0 = Inr (r, sf)"
    "recorded peaks (s_i sf + PEAK_SEARCH_RANGE) sf"
    "unat (s_peak_count sf) \<le> PEAK_TRACKING_LIMIT"
    by blast
  then show ?thesis by (simp add: calculate_peaks_def s0(1))
qed

lemma recorded_avg_wavelength_pos:
  assumes "recorded peaks ub sf" and "unat (s_peak_count sf) \<le> PEAK_TRACKING_LIMIT"
    and "PEAK_TRACKING_LIMIT \<le> length peaks"
  shows "\<exists>w. calculate_avg_wavelength (s_peaks sf) (s_peak_count sf) = Inr w \<and> 0 < w"
proof -
  from assms(1) have len: "length (s_peaks sf) = length peaks"
    and ge: "\<And>j. j < unat (s_peak_count sf) \<Longrightarrow> PEAK_SEARCH_RANGE \<le> unat (s_peaks sf ! j)"
    unfolding recorded_def by simp_all
  from assms(2,3) len have "unat (s_peak_count sf) \<le> length (s_peaks sf)" by simp
  then have "calculate_avg_wavelength (s_peaks sf) (s_peak_count sf) =
      Inr (rank_normalised_mean (s_peaks sf) (unat (s_peak_count sf)))"
    by (rule calculate_avg_wavelength_eq)
  moreover have "0 < rank_normalised_mean (s_peaks sf) (unat (s_peak_count sf))"
  proof (rule rank_normalised_mean_pos, intro allI impI)
    fix j assume "j < unat (s_peak_count sf)"
    from ge [OF this] show "0 < unat (s_peaks sf ! j)" by (simp add: PEAK_SEARCH_RANGE_def)
  qed
  ultimately show ?thesis by simp
qed

text \<open>
  C9.  For a profile with at least \<open>SHIFT_LIMIT\<close> elements and a peak array with room for
  \<open>PEAK_TRACKING_LIMIT\<close> entries, every peak index recorded by \<^verbatim>\<open>calculate_peaks\<close> (called
  with a count of zero) is at least \<open>PEAK_SEARCH_RANGE\<close>, and \<^verbatim>\<open>calculate_avg_wavelength\<close>
  on the recorded peaks returns a strictly positive value.  Hence \<^verbatim>\<open>calculate_freq\<close>, on
  every array of \<open>NUM_SAMPLES\<close> samples and whatever its local arrays hold at first, divides
  \<open>FS\<close> by a strictly positive wavelength: it never divides by zero, and returns a
  strictly positive frequency.
\<close>

theorem wavelength_positive_no_division_by_zero:
  assumes "SHIFT_LIMIT \<le> length array" and "PEAK_TRACKING_LIMIT \<le> length peaks"
    and "length samples = NUM_SAMPLES" and "length interference0 = NUM_SAMPLES"
    and "PEAK_TRACKING_LIMIT \<le> length peaks0"
  shows "(\<exists>reason sf w. calculate_peaks peaks 0 array = Inr (reason, sf)
      \<and> (\<forall>j < unat (s_peak_count sf). PEAK_SEARCH_RANGE \<le> unat (s_peaks sf ! j))
      \<and> calculate_avg_wavelength (s_peaks sf) (s_peak_count sf) = Inr w \<and> 0 < w)
    \<and> (\<exists>w. 0 < w \<and> 0 < f32_div (f32_of_int FS) w
      \<and> calculate_freq interference0 peaks0 samples = Inr (f32_div (f32_of_int FS) w))
    \<and> calculate_freq interference0 peaks0 samples \<noteq> Inl DivisionByZero"
proof -
  from calculate_peaks_result [OF assms(1,2)] obtain r sf where
    sf: "calculate_peaks peaks 0 array = Inr (r, sf)"
      "recorded peaks (s_i sf + PEAK_SEARCH_RANGE) sf"
      "unat (s_peak_count sf) \<le> PEAK_TRACKING_LIMIT" by blast
  from recorded_avg_wavelength_pos [OF sf(2,3) assms(2)] obtain w where
    w: "calculate_avg_wavelength (s_peaks sf) (s_peak_count sf) = Inr w" "0 < w" by blast
  from sf(2) have "\<forall>j < unat (s_peak_count sf). PEAK_SEARCH_RANGE \<le> unat (s_peaks sf ! j)"
    unfolding recorded_def by simp
  with sf(1) w have A: "\<exists>reason sf w. calculate_peaks peaks 0 array = Inr (reason, sf)
      \<and> (\<forall>j < unat (s_peak_count sf). PEAK_SEARCH_RANGE \<le> unat (s_peaks sf ! j))
      \<and> calculate_avg_wavelength (s_peaks sf) (s_peak_count sf) = Inr w \<and> 0 < w"
    by blast
  from profile_loop_result [OF assms(3,4), of 0] obtain p where
    p: "profile_loop samples 0 interference0 = Inr p" "length p = NUM_SAMPLES" by auto
  from p(2) have "SHIFT_LIMIT \<le> length p" by (simp add: SHIFT_LIMIT_def NUM_SAMPLES_def)
  from calculate_peaks_result [OF this assms(5)] obtain r' sf' where
    sf': "calculate_peaks peaks0 0 p = Inr (r', sf')"
      "recorded peaks0 (s_i sf' + PEAK_SEARCH_RANGE) sf'"
      "unat (s_peak_count sf') \<le> PEAK_TRACKING_LIMIT" by blast
  from recorded_avg_wavelength_pos [OF sf'(2,3) assms(5)] obtain w' where
    w': "calculate_avg_wavelength (s_peaks sf') (s_peak_count sf') = Inr w'" "0 < w'" by blast
  have fs: "0 < f32_of_int FS" by (rule f32_of_int_pos) (simp add: FS_def)
  have freq: "calculate_freq interference0 peaks0 samples = Inr (f32_div (f32_of_int FS) w')"
    using w'(2) by (simp add: calculate_freq_def p(1) sf'(1) w'(1))
  moreover have "0 < f32_div (f32_of_int FS) w'" using fs w'(2) by (rule f32_div_pos)
  ultimately have B: "\<exists>w. 0 < w \<and> 0 < f32_div (f32_of_int FS) w
      \<and> calculate_freq interference0 peaks0 samples = Inr (f32_div (f32_of_int FS) w)"
    using w'(2) by blast
  from freq have C: "calculate_freq interference0 peaks0 samples \<noteq> Inl DivisionByZero" by simp
  from A B C show ?thesis by blast
qed

theorem wavelength_positive_no_division_by_zero_witness:
  "(\<exists>reason sf w.
      calculate_peaks (replicate 10 0) 0 (replicate 15 5 @ 1 # replicate 1484 5) = Inr (reason, sf)
      \<and> calculate_avg_wavelength (s_peaks sf) (s_peak_count sf) = Inr w \<and> 0 < w)
   \<and> calculate_freq (replicate 1500 0) (replicate 10 0) (replicate 1500 7)
      \<noteq> Inl DivisionByZero"
proof -
  have "SHIFT_LIMIT \<le> length (replicate 15 5 @ 1 # replicate 1484 (5 :: i32))"
    "PEAK_TRACKING_LIMIT \<le> length (replicate 10 (0 :: u16))"
    "length (replicate 1500 (7 :: u8)) = NUM_SAMPLES"
    "length (replicate 1500 (0 :: i32)) = NUM_SAMPLES"
    "PEAK_TRACKING_LIMIT \<le> length (replicate 10 (0 :: u16))"
    by (simp_all add: SHIFT_LIMIT_def PEAK_TRACKING_LIMIT_def NUM_SAMPLES_def)
  from wavelength_positive_no_division_by_zero [OF this] show ?thesis by blast
qed

section \<open>A window of equal samples\<close>

lemma window_sum_flat:
  assumes "i + n \<le> m"
  shows "window_sum (replicate m a) i n = n * unat a"
proof -
  have "window_sum (replicate m a) i n = (\<Sum>k = 0..<n. unat a)"
    unfolding window_sum_def by (rule sum.cong) (use assms in auto)
  then show ?thesis by simp
qed

lemma calculate_sma_flat:
  assumes "unat index + SMA_WIDTH + 1 \<le> m"
  shows "calculate_sma index (replicate m a) = Inr (ucast a)"
proof -
  from assms have "unat index + SMA_WIDTH + 1 \<le> length (replicate m a)" by simp
  from calculate_sma_value [OF this] obtain r where
    r: "calculate_sma index (replicate m a) = Inr r"
    "unat r = window_sum (replicate m a) (unat index) (SMA_WIDTH + 1) div (SMA_WIDTH + 1)"
    by blast
  from assms have ws: "window_sum (replicate m a) (unat index) (SMA_WIDTH + 1)
      = (SMA_WIDTH + 1) * unat a"
    by (intro window_sum_flat) simp
  have "unat r = unat a" unfolding r(2) ws by (simp add: SMA_WIDTH_def)
  then have "unat r = unat (ucast a :: u16)" by (simp only: unat_ucast_u8_u16)
  then have "r = ucast a" by (rule unsigned_word_eqI)
  with r(1) show ?thesis by simp
qed

lemma smooth_flat:
  assumes "length samples0 = NUM_SAMPLES"
  shows "smooth (replicate (NUM_SAMPLES + SMA_WIDTH) a) samples0 = Inr (replicate NUM_SAMPLES a)"
proof -
  let ?raw = "replicate (NUM_SAMPLES + SMA_WIDTH) a"
  from smooth_loop_result [of ?raw samples0 0] assms obtain out where
    out: "smooth_loop ?raw 0 samples0 = Inr out" "length out = NUM_SAMPLES"
      "\<And>k. k < NUM_SAMPLES \<Longrightarrow> calculate_sma (word_of_nat k) ?raw = Inr (ucast (out ! k))"
    by auto
  have "out ! k = a" if "k < NUM_SAMPLES" for k
  proof -
    from that have "unat (word_of_nat k :: u16) = k"
      by (intro unat_u16_of_nat) (simp add: NUM_SAMPLES_def)
    with that have "unat (word_of_nat k :: u16) + SMA_WIDTH + 1 \<le> NUM_SAMPLES + SMA_WIDTH"
      by simp
    from calculate_sma_flat [OF this, of a] out(3) [OF that]
    have "(ucast (out ! k) :: u16) = ucast a" by simp
    then have "unat (ucast (out ! k) :: u16) = unat (ucast a :: u16)" by simp
    then have "unat (out ! k) = unat a" by (simp only: unat_ucast_u8_u16)
    then show ?thesis by (rule unsigned_word_eqI)
  qed
  with out(2) have "out = replicate NUM_SAMPLES a"
    by (simp add: list_eq_iff_nth_eq)
  with out(1) show ?thesis by (simp add: smooth_def)
qed

lemma partial_power_flat:
  assumes "n + shift \<le> m"
  shows "partial_power (replicate m a) shift n = 0"
proof -
  have "partial_power (replicate m a) shift n = (\<Sum>k = 0..<n. 0)"
    unfolding partial_power_def abs_diff_def by (rule sum.cong) (use assms in auto)
  then show ?thesis by simp
qed

lemma calculate_interference_pwr_flat:
  assumes "shift < NUM_SAMPLES"
  shows "calculate_interference_pwr (int shift) (replicate NUM_SAMPLES a) = Inr 0"
proof -
  have none: "\<not> (\<exists>n \<le> NUM_SAMPLES - shift.
      INTERFERENCE_THRESHOLD < partial_power (replicate NUM_SAMPLES a) shift n)"
    using assms by (auto simp: partial_power_flat INTERFERENCE_THRESHOLD_def)
  have "partial_power (replicate NUM_SAMPLES a) shift (NUM_SAMPLES - shift) = 0"
    using assms by (intro partial_power_flat) simp
  with calculate_interference_pwr_value [of "replicate NUM_SAMPLES a" shift] assms
  show ?thesis by (simp only: if_not_P [OF none] length_replicate) simp
qed

lemma profile_flat:
  assumes "length interference0 = NUM_SAMPLES"
  shows "profile_loop (replicate NUM_SAMPLES a) 0 interference0 = Inr (replicate NUM_SAMPLES 0)"
proof -
  from profile_loop_result [of "replicate NUM_SAMPLES a" interference0 0] assms obtain p where
    p: "profile_loop (replicate NUM_SAMPLES a) 0 interference0 = Inr p" "length p = NUM_SAMPLES"
      "\<And>k. k < NUM_SAMPLES \<Longrightarrow>
        calculate_interference_pwr (int k) (replicate NUM_SAMPLES a) = Inr (p ! k)"
    by auto
  have "p ! k = 0" if "k < NUM_SAMPLES" for k
    using p(3) [OF that] calculate_interference_pwr_flat [OF that, of a] by simp
  with p(2) have "p = replicate NUM_SAMPLES 0" by (simp add: list_eq_iff_nth_eq)
  with p(1) show ?thesis by simp
qed

lemma flat_no_candidate:
  assumes inv: "window_inv a s"
    and run: "s_i s < SHIFT_LIMIT - PEAK_SEARCH_RANGE - PEAK_SEARCH_RANGE"
    and len: "SHIFT_LIMIT \<le> length a"
    and lo: "lo \<le> s_i s - PEAK_SEARCH_RANGE"
    and flat: "\<forall>j. lo \<le> j \<and> j < SHIFT_LIMIT \<longrightarrow> a ! j = c"
  shows "\<exists>nxt.
      min_in_range a (word_of_nat (s_i s + PEAK_SEARCH_RANGE)) (word_of_nat PEAK_SEARCH_RANGE)
        = Inr nxt
    \<and> candidate_test a (s_prev_min_index s) (s_current_min_index s) nxt = Inr False
    \<and> loop_body a s = Inr (Next (advance s nxt))"
proof -
  let ?p = "unat (s_prev_min_index s)" and ?c = "unat (s_current_min_index s)"
  from inv have ge: "PEAK_SEARCH_RANGE \<le> s_i s"
    and fp: "first_min a (s_i s - PEAK_SEARCH_RANGE) PEAK_SEARCH_RANGE ?p"
    and fc: "first_min a (s_i s) PEAK_SEARCH_RANGE ?c"
    unfolding window_inv_def by simp_all
  from first_min_bounds [OF fp] first_min_bounds [OF fc] ge run lo
  have "?p < SHIFT_LIMIT" "?c < SHIFT_LIMIT" "lo \<le> ?p" "lo \<le> ?c"
    by (simp_all add: SHIFT_LIMIT_def PEAK_SEARCH_RANGE_def)
  with flat have same: "a ! ?c = a ! ?p" by simp
  from loop_body_eq [OF inv run len] obtain nxt where
    nxt: "min_in_range a (word_of_nat (s_i s + PEAK_SEARCH_RANGE)) (word_of_nat PEAK_SEARCH_RANGE)
      = Inr nxt"
    and ct: "candidate_test a (s_prev_min_index s) (s_current_min_index s) nxt =
        Inr (sint (a ! ?c) < sint (a ! ?p) \<and> sint (a ! ?c) < sint (a ! unat nxt))"
    and lb: "loop_body a s =
        (if sint (a ! ?c) < sint (a ! ?p) \<and> sint (a ! ?c) < sint (a ! unat nxt)
         then
           (case wr (s_peaks s) (uint (s_peak_count s + 1) - 1) (s_current_min_index s) of
              Inl e \<Rightarrow> Inl e
            | Inr peaks' \<Rightarrow>
                if PEAK_TRACKING_LIMIT \<le> unat (s_peak_count s + 1)
                then Inr (Stop CapacityReached
                       (s\<lparr>s_peaks := peaks', s_peak_count := s_peak_count s + 1\<rparr>))
                else Inr (Next (advance
                       (s\<lparr>s_peaks := peaks', s_peak_count := s_peak_count s + 1\<rparr>) nxt)))
         else Inr (Next (advance s nxt)))"
    by blast
  from ct same have ct': "candidate_test a (s_prev_min_index s) (s_current_min_index s) nxt
      = Inr False" by simp
  from lb same have lb': "loop_body a s = Inr (Next (advance s nxt))" by simp
  from nxt ct' lb' show ?thesis by blast
qed

lemma scan_loop_flat:
  assumes "window_inv a s" and "SHIFT_LIMIT \<le> length a"
    and "lo \<le> s_i s - PEAK_SEARCH_RANGE"
    and "\<forall>j. lo \<le> j \<and> j < SHIFT_LIMIT \<longrightarrow> a ! j = c"
  shows "\<exists>sf. scan_loop a s = Inr (RangeExhausted, sf)
    \<and> s_peaks sf = s_peaks s \<and> s_peak_count sf = s_peak_count s"
  using assms
proof (induction a s rule: scan_loop.induct)
  case (1 array s)
  show ?case
  proof (cases "s_i s < SHIFT_LIMIT - PEAK_SEARCH_RANGE - PEAK_SEARCH_RANGE")
    case False
    then show ?thesis by (subst scan_loop.simps) simp
  next
    case True
    from flat_no_candidate [OF "1.prems"(1) True "1.prems"(2,3,4)] obtain nxt where
      lb: "loop_body array s = Inr (Next (advance s nxt))" by blast
    have "window_inv array (advance s nxt)"
      by (rule loop_body_Next_window_inv [OF "1.prems"(1) True "1.prems"(2) lb])
    moreover have "lo \<le> s_i (advance s nxt) - PEAK_SEARCH_RANGE"
      using "1.prems"(3) by (simp add: advance_def)
    ultimately obtain sf where
      sf: "scan_loop array (advance s nxt) = Inr (RangeExhausted, sf)"
        "s_peaks sf = s_peaks (advance s nxt)" "s_peak_count sf = s_peak_count (advance s nxt)"
      using "1.IH" [OF True lb refl _ "1.prems"(2) _ "1.prems"(4)] by blast
    have "scan_loop array s = scan_loop array (advance s nxt)"
      using True lb by (subst scan_loop.simps) simp
    with sf show ?thesis by (simp add: advance_def)
  qed
qed

lemma calculate_peaks_flat:
  assumes "SHIFT_LIMIT \<le> length a" and "\<forall>j < SHIFT_LIMIT. a ! j = c"
  shows "\<exists>sf. calculate_peaks peaks cnt a = Inr (RangeExhausted, sf)
    \<and> s_peaks sf = peaks \<and> s_peak_count sf = cnt"
proof -
  from initial_state_window_inv [OF assms(1), of peaks cnt] obtain s0 where
    s0: "initial_state peaks cnt a = Inr s0" "window_inv a s0"
      "s_peaks s0 = peaks" "s_peak_count s0 = cnt" by blast
  from assms(2) have "\<forall>j. 0 \<le> j \<and> j < SHIFT_LIMIT \<longrightarrow> a ! j = c" by simp
  from scan_loop_flat [OF s0(2) assms(1) _ this] s0 show ?thesis
    by (simp add: calculate_peaks_def)
qed


lemma default_frequency: "f32_div (f32_of_int FS) (f32_of_int DEFAULT_VAL) = 440"
  unfolding FS_def DEFAULT_VAL_def by code_simp

text \<open>
  C5.  Let all \<open>NUM_SAMPLES + SMA_WIDTH\<close> samples of the raw window be equal to one
  amplitude \<open>a\<close>.  Then \<^verbatim>\<open>calculate_sma\<close> returns \<open>a\<close> at every index below \<open>NUM_SAMPLES\<close> and
  the smoothed signal is constant \<open>a\<close>; \<^verbatim>\<open>calculate_interference_pwr\<close> returns 0 for every
  shift below \<open>NUM_SAMPLES\<close>, so the profile is all zeros; on that profile the candidate
  test fails in every pass of the scan (the window minima tie), the scan runs to the end
  of the range and \<^verbatim>\<open>calculate_peaks\<close> leaves the count at zero and the peak array as it
  was; and \<^verbatim>\<open>calculate_freq\<close> on the smoothed signal returns \<open>FS / DEFAULT_VAL = 440\<close>,
  whatever its local arrays hold at first.
\<close>

theorem flat_window_gives_default_frequency:
  assumes "length samples0 = NUM_SAMPLES" and "length interference0 = NUM_SAMPLES"
  shows "(\<forall>i < NUM_SAMPLES.
        calculate_sma (word_of_nat i) (replicate (NUM_SAMPLES + SMA_WIDTH) a) = Inr (ucast a))
    \<and> smooth (replicate (NUM_SAMPLES + SMA_WIDTH) a) samples0 = Inr (replicate NUM_SAMPLES a)
    \<and> (\<forall>shift < NUM_SAMPLES.
        calculate_interference_pwr (int shift) (replicate NUM_SAMPLES a) = Inr 0)
    \<and> profile_loop (replicate NUM_SAMPLES a) 0 interference0 = Inr (replicate NUM_SAMPLES 0)
    \<and> (\<exists>sf. calculate_peaks peaks0 0 (replicate NUM_SAMPLES 0) = Inr (RangeExhausted, sf)
        \<and> s_peaks sf = peaks0 \<and> s_peak_count sf = 0)
    \<and> (\<forall>s0 s. initial_state peaks0 0 (replicate NUM_SAMPLES 0) = Inr s0 \<longrightarrow>
          scan_steps (replicate NUM_SAMPLES 0) s0 s \<longrightarrow>
          s_i s < SHIFT_LIMIT - PEAK_SEARCH_RANGE - PEAK_SEARCH_RANGE \<longrightarrow>
          (\<exists>nxt. min_in_range (replicate NUM_SAMPLES 0) (word_of_nat (s_i s + PEAK_SEARCH_RANGE))
                (word_of_nat PEAK_SEARCH_RANGE) = Inr nxt
            \<and> candidate_test (replicate NUM_SAMPLES 0) (s_prev_min_index s)
                (s_current_min_index s) nxt = Inr False))
    \<and> calculate_freq interference0 peaks0 (replicate NUM_SAMPLES a) = Inr 440
    \<and> f32_div (f32_of_int FS) (f32_of_int DEFAULT_VAL) = 440"
proof -
  let ?z = "replicate NUM_SAMPLES (0 :: i32)"
  have len: "SHIFT_LIMIT \<le> length ?z" by (simp add: SHIFT_LIMIT_def NUM_SAMPLES_def)
  have flat: "\<forall>j < SHIFT_LIMIT. ?z ! j = 0" by (simp add: SHIFT_LIMIT_def NUM_SAMPLES_def)
  have A: "calculate_sma (word_of_nat i) (replicate (NUM_SAMPLES + SMA_WIDTH) a) = Inr (ucast a)"
    if "i < NUM_SAMPLES" for i
  proof -
    from that have "unat (word_of_nat i :: u16) = i"
      by (intro unat_u16_of_nat) (simp add: NUM_SAMPLES_def)
    with that have "unat (word_of_nat i :: u16) + SMA_WIDTH + 1 \<le> NUM_SAMPLES + SMA_WIDTH"
      by simp
    then show ?thesis by (rule calculate_sma_flat)
  qed
  note B = smooth_flat [OF assms(1), of a]
  note C = calculate_interference_pwr_flat [of _ a]
  note D = profile_flat [OF assms(2), of a]
  from calculate_peaks_flat [OF len flat, of peaks0 0] obtain sf where
    sf: "calculate_peaks peaks0 0 ?z = Inr (RangeExhausted, sf)"
      "s_peaks sf = peaks0" "s_peak_count sf = 0" by blast
  have F: "\<exists>nxt. min_in_range ?z (word_of_nat (s_i s + PEAK_SEARCH_RANGE))
        (word_of_nat PEAK_SEARCH_RANGE) = Inr nxt
      \<and> candidate_test ?z (s_prev_min_index s) (s_current_min_index s) nxt = Inr False"
    if init: "initial_state peaks0 0 ?z = Inr s0" and steps: "scan_steps ?z s0 s"
      and run: "s_i s < SHIFT_LIMIT - PEAK_SEARCH_RANGE - PEAK_SEARCH_RANGE" for s0 s
  proof -
    from initial_state_window_inv [OF len, of peaks0 0] init have "window_inv ?z s0" by auto
    with steps have winv: "window_inv ?z s" using len by (rule scan_steps_window_inv)
    have zero: "0 \<le> s_i s - PEAK_SEARCH_RANGE" by simp
    from flat have tail: "\<forall>j. 0 \<le> j \<and> j < SHIFT_LIMIT \<longrightarrow> ?z ! j = 0" by simp
    from flat_no_candidate [OF winv run len zero tail] show ?thesis by blast
  qed
  have "calculate_avg_wavelength (s_peaks sf) (s_peak_count sf) = Inr 100"
    unfolding sf(3) by (simp add: calculate_avg_wavelength_def f32_of_int_default)
  moreover have "f32_div (f32_of_int FS) 100 = 440"
    using default_frequency by (simp only: f32_of_int_default)
  ultimately have G: "calculate_freq interference0 peaks0 (replicate NUM_SAMPLES a) = Inr 440"
    by (simp add: calculate_freq_def D sf(1))
  from A B C D sf F G default_frequency show ?thesis by blast
qed

theorem flat_window_gives_default_frequency_witness:
  "calculate_sma 3 (replicate 1520 128) = Inr 128
   \<and> smooth (replicate 1520 128) (replicate 1500 0) = Inr (replicate 1500 128)
   \<and> calculate_interference_pwr 7 (replicate 1500 128) = Inr 0
   \<and> calculate_freq (replicate 1500 0) (replicate 10 0) (replicate 1500 128) = Inr 440"
proof -
  have "length (replicate 1500 (0 :: u8)) = NUM_SAMPLES"
    "length (replicate 1500 (0 :: i32)) = NUM_SAMPLES"
    by (simp_all add: NUM_SAMPLES_def)
  note t = flat_window_gives_default_frequency [OF this, of 128 "replicate 10 0"]
  have three: "(3 :: nat) < NUM_SAMPLES" and seven: "(7 :: nat) < NUM_SAMPLES"
    by (simp_all add: NUM_SAMPLES_def)
  from t have "calculate_sma (word_of_nat 3) (replicate (NUM_SAMPLES + SMA_WIDTH) 128)
      = Inr (ucast (128 :: u8))" using three by blast
  then have A: "calculate_sma 3 (replicate 1520 128) = Inr 128"
    by (simp add: NUM_SAMPLES_def SMA_WIDTH_def)
  from t have "smooth (replicate (NUM_SAMPLES + SMA_WIDTH) 128) (replicate 1500 0)
      = Inr (replicate NUM_SAMPLES 128)" by blast
  then have B: "smooth (replicate 1520 128) (replicate 1500 0) = Inr (replicate 1500 128)"
    by (simp add: NUM_SAMPLES_def SMA_WIDTH_def)
  from t have "calculate_interference_pwr (int 7) (replicate NUM_SAMPLES 128) = Inr 0"
    using seven by blast
  then have C: "calculate_interference_pwr 7 (replicate 1500 128) = Inr 0"
    by (simp add: NUM_SAMPLES_def)
  from t have "calculate_freq (replicate 1500 0) (replicate 10 0) (replicate NUM_SAMPLES 128)
      = Inr 440" by blast
  then have D: "calculate_freq (replicate 1500 0) (replicate 10 0) (replicate 1500 128) = Inr 440"
    by (simp add: NUM_SAMPLES_def)
  from A B C D show ?thesis by blast
qed

section \<open>A profile with one dip\<close>

text \<open>
  On a profile that is 5 everywhere but 1 at index 15, \<^verbatim>\<open>calculate_peaks\<close> records the
  peak 15 and no other, and ends because the range is exhausted.
\<close>

lemma one_dip_scan:
  fixes pk :: "u16 list"
  assumes cap: "PEAK_TRACKING_LIMIT \<le> length pk"
  shows "\<exists>sf. calculate_peaks pk 0 (replicate 15 5 @ 1 # replicate 1484 5)
        = Inr (RangeExhausted, sf)
      \<and> s_peaks sf = pk[0 := 15] \<and> s_peak_count sf = 1"
proof -
  let ?a = "replicate 15 5 @ 1 # replicate 1484 5 :: i32 list"
  let ?s0 = "\<lparr>s_i = 15, s_prev_min_index = 0, s_current_min_index = 15,
    s_peaks = pk, s_peak_count = 0\<rparr>"
  have len: "SHIFT_LIMIT \<le> length ?a" by (simp add: SHIFT_LIMIT_def)
  have val: "?a ! j = 5" if "16 \<le> j" "j < 1500" for j
    using that by (simp add: nth_append nth_Cons')
  \<comment> \<open>the initial state\<close>
  have "first_min ?a (unat (0 :: u16)) (unat (word_of_nat PEAK_SEARCH_RANGE :: u16)) 0"
    by (auto simp: first_min_def PEAK_SEARCH_RANGE_def nth_append)
  then have p: "min_in_range ?a 0 (word_of_nat PEAK_SEARCH_RANGE) = Inr 0"
    by (intro min_in_range_eqI [where k = 0, simplified]) (simp_all add: PEAK_SEARCH_RANGE_def)
  have "first_min ?a (unat (word_of_nat PEAK_SEARCH_RANGE :: u16))
      (unat (word_of_nat PEAK_SEARCH_RANGE :: u16)) 15"
    by (auto simp: first_min_def PEAK_SEARCH_RANGE_def nth_append nth_Cons')
  then have c: "min_in_range ?a (word_of_nat PEAK_SEARCH_RANGE) (word_of_nat PEAK_SEARCH_RANGE)
      = Inr 15"
    by (intro min_in_range_eqI [where k = 15, simplified]) (simp_all add: PEAK_SEARCH_RANGE_def)
  have init: "initial_state pk 0 ?a = Inr ?s0"
    unfolding initial_state_def p c by (simp add: PEAK_SEARCH_RANGE_def)
  from initial_state_window_inv [OF len, of pk 0] init have w0: "window_inv ?a ?s0" by auto
  have p0: "peaks_inv pk ?s0" by (rule initial_peaks_inv) simp_all
  have run0: "s_i ?s0 < SHIFT_LIMIT - PEAK_SEARCH_RANGE - PEAK_SEARCH_RANGE"
    by (simp add: SHIFT_LIMIT_def PEAK_SEARCH_RANGE_def)
  \<comment> \<open>first pass: the candidate at 15 is recorded\<close>
  from loop_body_peaks [OF w0 run0 len p0 cap] obtain nxt where
    fn: "first_min ?a (s_i ?s0 + PEAK_SEARCH_RANGE) PEAK_SEARCH_RANGE (unat nxt)"
    and lb: "loop_body ?a ?s0 =
        (if sint (?a ! unat (s_current_min_index ?s0)) < sint (?a ! unat (s_prev_min_index ?s0))
           \<and> sint (?a ! unat (s_current_min_index ?s0)) < sint (?a ! unat nxt)
         then if PEAK_TRACKING_LIMIT \<le> unat (s_peak_count ?s0) + 1
              then Inr (Stop CapacityReached
                (?s0\<lparr>s_peaks := (s_peaks ?s0)[unat (s_peak_count ?s0) := s_current_min_index ?s0],
                     s_peak_count := s_peak_count ?s0 + 1\<rparr>))
              else Inr (Next (advance
                (?s0\<lparr>s_peaks := (s_peaks ?s0)[unat (s_peak_count ?s0) := s_current_min_index ?s0],
                     s_peak_count := s_peak_count ?s0 + 1\<rparr>) nxt))
         else Inr (Next (advance ?s0 nxt)))"
    by blast
  from first_min_bounds [OF fn] have nb: "30 \<le> unat nxt" "unat nxt < 45"
    by (simp_all add: PEAK_SEARCH_RANGE_def)
  then have "?a ! unat nxt = 5" by (intro val) simp_all
  then have dip: "sint (?a ! unat (s_current_min_index ?s0)) < sint (?a ! unat (s_prev_min_index ?s0))
           \<and> sint (?a ! unat (s_current_min_index ?s0)) < sint (?a ! unat nxt)"
    by (simp add: nth_append)
  let ?s1 = "advance
    (?s0\<lparr>s_peaks := (s_peaks ?s0)[unat (s_peak_count ?s0) := s_current_min_index ?s0],
         s_peak_count := s_peak_count ?s0 + 1\<rparr>) nxt"
  have lb1: "loop_body ?a ?s0 = Inr (Next ?s1)"
    unfolding lb using dip by (simp add: PEAK_TRACKING_LIMIT_def)
  have w1: "window_inv ?a ?s1" by (rule loop_body_Next_window_inv [OF w0 run0 len lb1])
  have run1: "s_i ?s1 < SHIFT_LIMIT - PEAK_SEARCH_RANGE - PEAK_SEARCH_RANGE"
    by (simp add: advance_def SHIFT_LIMIT_def PEAK_SEARCH_RANGE_def)
  \<comment> \<open>second pass: the window after the dip is no candidate\<close>
  from loop_body_eq [OF w1 run1 len] obtain nxt' where
    lb': "loop_body ?a ?s1 =
        (if sint (?a ! unat (s_current_min_index ?s1)) < sint (?a ! unat (s_prev_min_index ?s1))
           \<and> sint (?a ! unat (s_current_min_index ?s1)) < sint (?a ! unat nxt')
         then
           (case wr (s_peaks ?s1) (uint (s_peak_count ?s1 + 1) - 1) (s_current_min_index ?s1) of
              Inl e \<Rightarrow> Inl e
            | Inr peaks' \<Rightarrow>
                if PEAK_TRACKING_LIMIT \<le> unat (s_peak_count ?s1 + 1)
                then Inr (Stop CapacityReached
                       (?s1\<lparr>s_peaks := peaks', s_peak_count := s_peak_count ?s1 + 1\<rparr>))
                else Inr (Next (advance
                       (?s1\<lparr>s_peaks := peaks', s_peak_count := s_peak_count ?s1 + 1\<rparr>) nxt')))
         else Inr (Next (advance ?s1 nxt')))"
    by blast
  have cur1: "s_current_min_index ?s1 = nxt" "s_prev_min_index ?s1 = 15"
    by (simp_all add: advance_def)
  have "\<not> sint (?a ! unat nxt) < sint (?a ! unat (15 :: u16))"
    using \<open>?a ! unat nxt = 5\<close> by (simp add: nth_append)
  then have lb2: "loop_body ?a ?s1 = Inr (Next (advance ?s1 nxt'))"
    unfolding lb' cur1 by simp
  let ?s2 = "advance ?s1 nxt'"
  have w2: "window_inv ?a ?s2" by (rule loop_body_Next_window_inv [OF w1 run1 len lb2])
  \<comment> \<open>from there on the profile is flat\<close>
  have lo: "30 \<le> s_i ?s2 - PEAK_SEARCH_RANGE" by (simp add: advance_def PEAK_SEARCH_RANGE_def)
  have tail: "\<forall>j. 30 \<le> j \<and> j < SHIFT_LIMIT \<longrightarrow> ?a ! j = 5"
  proof (intro allI impI)
    fix j assume "30 \<le> j \<and> j < SHIFT_LIMIT"
    then have "16 \<le> j" "j < 1500" by (simp_all add: SHIFT_LIMIT_def)
    then show "?a ! j = 5" by (rule val)
  qed
  from scan_loop_flat [OF w2 len lo tail] obtain sf where
    sf: "scan_loop ?a ?s2 = Inr (RangeExhausted, sf)"
      "s_peaks sf = s_peaks ?s2" "s_peak_count sf = s_peak_count ?s2" by blast
  have "scan_loop ?a ?s0 = scan_loop ?a ?s1"
    using run0 lb1 by (subst scan_loop.simps) simp
  also have "\<dots> = scan_loop ?a ?s2"
    using run1 lb2 by (subst scan_loop.simps) simp
  finally have "scan_loop ?a ?s0 = Inr (RangeExhausted, sf)" using sf(1) by simp
  then have "calculate_peaks pk 0 ?a = Inr (RangeExhausted, sf)"
    by (simp add: calculate_peaks_def init)
  moreover have "s_peaks sf = pk[0 := 15]" "s_peak_count sf = 1"
    using sf(2,3) by (simp_all add: advance_def)
  ultimately show ?thesis by blast
qed

section \<open>The recorded peaks are the strict dips\<close>

lemma LAST_WINDOW_value: "LAST_WINDOW = 81"
  by (simp add: LAST_WINDOW_def SHIFT_LIMIT_def PEAK_SEARCH_RANGE_def)

lemma fold_first_min:
  "first_min a s (Suc n)
     (fold (\<lambda>j m. if sint (a ! j) < sint (a ! m) then j else m) [s..<s + Suc n] s)"
proof (induction n)
  case 0
  show ?case by (simp add: first_min_single)
next
  case (Suc n)
  let ?f = "\<lambda>j m. if sint (a ! j) < sint (a ! m) then j else m"
  let ?m = "fold ?f [s..<s + Suc n] s"
  have "[s..<s + Suc (Suc n)] = [s..<s + Suc n] @ [s + Suc n]" by simp
  then have eq: "fold ?f [s..<s + Suc (Suc n)] s = ?f (s + Suc n) ?m"
    by (simp only: fold_append fold_simps comp_apply id_apply)
  show ?case
  proof (cases "sint (a ! (s + Suc n)) < sint (a ! ?m)")
    case True
    with first_min_extend_new [OF Suc.IH True] eq show ?thesis by simp
  next
    case False
    then have "sint (a ! ?m) \<le> sint (a ! (s + Suc n))" by simp
    from first_min_extend_keep [OF Suc.IH this] eq False show ?thesis by simp
  qed
qed

lemma window_min_first_min:
  "first_min a (k * PEAK_SEARCH_RANGE) PEAK_SEARCH_RANGE (window_min a k)"
proof -
  have "PEAK_SEARCH_RANGE = Suc 14" by (simp add: PEAK_SEARCH_RANGE_def)
  then show ?thesis unfolding window_min_def using fold_first_min [of a "k * Suc 14" 14]
    by (simp only:)
qed

lemma window_min_eq:
  assumes "first_min a i PEAK_SEARCH_RANGE m" and "PEAK_SEARCH_RANGE dvd i"
  shows "m = window_min a (i div PEAK_SEARCH_RANGE)"
proof -
  from assms(2) have "i div PEAK_SEARCH_RANGE * PEAK_SEARCH_RANGE = i" by simp
  with window_min_first_min [of a "i div PEAK_SEARCH_RANGE"]
  have "first_min a i PEAK_SEARCH_RANGE (window_min a (i div PEAK_SEARCH_RANGE))" by simp
  with assms(1) show ?thesis by (rule first_min_unique)
qed

lemma accepted_peaks_Suc:
  assumes "1 \<le> k"
  shows "accepted_peaks a (Suc k) =
    (if strict_dip a k then accepted_peaks a k @ [window_min a k] else accepted_peaks a k)"
  using assms by (simp add: accepted_peaks_def)

lemma accepted_peaks_prefix:
  assumes "m \<le> n"
  shows "take (length (accepted_peaks a m)) (accepted_peaks a n) = accepted_peaks a m"
proof (cases "1 \<le> m")
  case True
  from upt_add_eq_append [OF True, of "n - m"] assms
  have "[1..<n] = [1..<m] @ [m..<n]" by simp
  then show ?thesis by (simp add: accepted_peaks_def)
next
  case False
  then show ?thesis by (simp add: accepted_peaks_def)
qed


lemma take_Suc_update:
  assumes "c < length xs"
  shows "take (Suc c) (xs[c := v]) = take c xs @ [v]"
  using assms by (simp add: take_Suc_conv_app_nth)

lemma loop_body_accepted:
  assumes inv: "window_inv a s"
    and run: "s_i s < SHIFT_LIMIT - PEAK_SEARCH_RANGE - PEAK_SEARCH_RANGE"
    and len: "SHIFT_LIMIT \<le> length a"
    and pinv: "peaks_inv pk s"
    and cap: "PEAK_TRACKING_LIMIT \<le> length pk"
    and acc: "map unat (take (unat (s_peak_count s)) (s_peaks s))
      = accepted_peaks a (s_i s div PEAK_SEARCH_RANGE)"
  shows "\<exists>nxt s1.
      s1 = s\<lparr>s_peaks := (s_peaks s)[unat (s_peak_count s) := s_current_min_index s],
             s_peak_count := s_peak_count s + 1\<rparr>
    \<and> min_in_range a (word_of_nat (s_i s + PEAK_SEARCH_RANGE)) (word_of_nat PEAK_SEARCH_RANGE)
        = Inr nxt
    \<and> candidate_test a (s_prev_min_index s) (s_current_min_index s) nxt
        = Inr (strict_dip a (s_i s div PEAK_SEARCH_RANGE))
    \<and> unat (s_current_min_index s) = window_min a (s_i s div PEAK_SEARCH_RANGE)
    \<and> loop_body a s =
        (if strict_dip a (s_i s div PEAK_SEARCH_RANGE)
         then if PEAK_TRACKING_LIMIT \<le> unat (s_peak_count s) + 1
              then Inr (Stop CapacityReached s1)
              else Inr (Next (advance s1 nxt))
         else Inr (Next (advance s nxt)))
    \<and> map unat (take (unat (s_peak_count s1)) (s_peaks s1))
        = accepted_peaks a (s_i s div PEAK_SEARCH_RANGE)
          @ [window_min a (s_i s div PEAK_SEARCH_RANGE)]"
proof -
  let ?k = "s_i s div PEAK_SEARCH_RANGE"
  let ?c = "unat (s_peak_count s)"
  let ?s1 = "s\<lparr>s_peaks := (s_peaks s)[?c := s_current_min_index s],
               s_peak_count := s_peak_count s + 1\<rparr>"
  from inv have dvd: "PEAK_SEARCH_RANGE dvd s_i s" and ge: "PEAK_SEARCH_RANGE \<le> s_i s"
    and fp: "first_min a (s_i s - PEAK_SEARCH_RANGE) PEAK_SEARCH_RANGE (unat (s_prev_min_index s))"
    and fc: "first_min a (s_i s) PEAK_SEARCH_RANGE (unat (s_current_min_index s))"
    unfolding window_inv_def by simp_all
  from ge have k1: "1 \<le> ?k" by (simp add: PEAK_SEARCH_RANGE_def)
  from dvd ge have dvdp: "PEAK_SEARCH_RANGE dvd s_i s - PEAK_SEARCH_RANGE" by simp
  have kp: "(s_i s - PEAK_SEARCH_RANGE) div PEAK_SEARCH_RANGE = ?k - 1"
    by (simp add: PEAK_SEARCH_RANGE_def)
  have kn: "(s_i s + PEAK_SEARCH_RANGE) div PEAK_SEARCH_RANGE = ?k + 1"
    by (simp add: PEAK_SEARCH_RANGE_def)
  have cur: "unat (s_current_min_index s) = window_min a ?k" by (rule window_min_eq [OF fc dvd])
  have prev: "unat (s_prev_min_index s) = window_min a (?k - 1)"
    using window_min_eq [OF fp dvdp] unfolding kp .
  from loop_body_eq [OF inv run len] obtain nxt where
    mir: "min_in_range a (word_of_nat (s_i s + PEAK_SEARCH_RANGE)) (word_of_nat PEAK_SEARCH_RANGE)
        = Inr nxt"
    and fn: "first_min a (s_i s + PEAK_SEARCH_RANGE) PEAK_SEARCH_RANGE (unat nxt)"
    and ct: "candidate_test a (s_prev_min_index s) (s_current_min_index s) nxt =
        Inr (sint (a ! unat (s_current_min_index s)) < sint (a ! unat (s_prev_min_index s))
           \<and> sint (a ! unat (s_current_min_index s)) < sint (a ! unat nxt))"
    by blast
  from dvd have dvdn: "PEAK_SEARCH_RANGE dvd s_i s + PEAK_SEARCH_RANGE" by simp
  have nx: "unat nxt = window_min a (?k + 1)"
    using window_min_eq [OF fn dvdn] unfolding kn .
  have dip: "(sint (a ! unat (s_current_min_index s)) < sint (a ! unat (s_prev_min_index s))
           \<and> sint (a ! unat (s_current_min_index s)) < sint (a ! unat nxt)) = strict_dip a ?k"
    unfolding strict_dip_def cur prev nx ..
  from loop_body_peaks [OF inv run len pinv cap] obtain nxt' where
    fn': "first_min a (s_i s + PEAK_SEARCH_RANGE) PEAK_SEARCH_RANGE (unat nxt')"
    and lb: "loop_body a s =
        (if sint (a ! unat (s_current_min_index s)) < sint (a ! unat (s_prev_min_index s))
           \<and> sint (a ! unat (s_current_min_index s)) < sint (a ! unat nxt')
         then if PEAK_TRACKING_LIMIT \<le> ?c + 1
              then Inr (Stop CapacityReached ?s1)
              else Inr (Next (advance ?s1 nxt'))
         else Inr (Next (advance s nxt')))"
    and cnt: "unat (s_peak_count ?s1) = ?c + 1"
    by blast
  from first_min_unique [OF fn' fn] have nn: "nxt' = nxt" by (rule unsigned_word_eqI)
  from lb have B: "loop_body a s =
        (if strict_dip a ?k
         then if PEAK_TRACKING_LIMIT \<le> ?c + 1
              then Inr (Stop CapacityReached ?s1)
              else Inr (Next (advance ?s1 nxt))
         else Inr (Next (advance s nxt)))"
    unfolding nn dip .
  from pinv have rec: "recorded pk (s_i s) s" and c10: "?c < PEAK_TRACKING_LIMIT"
    unfolding peaks_inv_def by simp_all
  from rec have "length (s_peaks s) = length pk" unfolding recorded_def by simp
  with c10 cap have clen: "?c < length (s_peaks s)" by simp
  have "take (unat (s_peak_count ?s1)) (s_peaks ?s1)
      = take ?c (s_peaks s) @ [s_current_min_index s]"
    unfolding cnt using take_Suc_update [OF clen] by simp
  then have C: "map unat (take (unat (s_peak_count ?s1)) (s_peaks ?s1))
      = accepted_peaks a ?k @ [window_min a ?k]"
    using acc cur by simp
  have ct': "candidate_test a (s_prev_min_index s) (s_current_min_index s) nxt
        = Inr (strict_dip a ?k)"
    unfolding ct dip ..
  show ?thesis
    by (rule exI [of _ nxt], rule exI [of _ ?s1]) (intro conjI refl mir ct' cur B C)
qed


lemma scan_loop_accepted:
  assumes "window_inv a s" and "peaks_inv pk s"
    and "SHIFT_LIMIT \<le> length a" and "PEAK_TRACKING_LIMIT \<le> length pk"
    and "s_i s \<le> (LAST_WINDOW + 1) * PEAK_SEARCH_RANGE"
    and "map unat (take (unat (s_peak_count s)) (s_peaks s))
      = accepted_peaks a (s_i s div PEAK_SEARCH_RANGE)"
  shows "\<exists>r sf. scan_loop a s = Inr (r, sf)
    \<and> map unat (take (unat (s_peak_count sf)) (s_peaks sf))
        = take PEAK_TRACKING_LIMIT (accepted_peaks a (LAST_WINDOW + 1))"
  using assms
proof (induction a s rule: scan_loop.induct)
  case (1 array s)
  note winv = "1.prems"(1) and pinv = "1.prems"(2) and len = "1.prems"(3) and cap = "1.prems"(4)
    and ub = "1.prems"(5) and acc = "1.prems"(6)
  let ?k = "s_i s div PEAK_SEARCH_RANGE"
  let ?c = "unat (s_peak_count s)"
  from pinv have rec: "recorded pk (s_i s) s" and c10: "?c < PEAK_TRACKING_LIMIT"
    unfolding peaks_inv_def by simp_all
  from rec have plen: "length (s_peaks s) = length pk" unfolding recorded_def by simp
  from winv have dvd: "PEAK_SEARCH_RANGE dvd s_i s" and ge: "PEAK_SEARCH_RANGE \<le> s_i s"
    unfolding window_inv_def by simp_all
  from ge have k1: "1 \<le> ?k" by (simp add: PEAK_SEARCH_RANGE_def)
  have lacc: "length (accepted_peaks array ?k) = ?c"
    using arg_cong [OF acc, of length] c10 cap plen by simp
  show ?case
  proof (cases "s_i s < SHIFT_LIMIT - PEAK_SEARCH_RANGE - PEAK_SEARCH_RANGE")
    case False
    from dvd obtain q where q: "s_i s = PEAK_SEARCH_RANGE * q" ..
    with False ub have "q = 82"
      by (simp add: SHIFT_LIMIT_def PEAK_SEARCH_RANGE_def LAST_WINDOW_value)
    with q have "?k = LAST_WINDOW + 1" by (simp add: PEAK_SEARCH_RANGE_def LAST_WINDOW_value)
    with acc lacc c10 have "map unat (take ?c (s_peaks s))
        = take PEAK_TRACKING_LIMIT (accepted_peaks array (LAST_WINDOW + 1))" by simp
    with False show ?thesis by (subst scan_loop.simps) simp
  next
    case True
    from dvd obtain q where q: "s_i s = PEAK_SEARCH_RANGE * q" ..
    with True have "q \<le> 81" by (simp add: SHIFT_LIMIT_def PEAK_SEARCH_RANGE_def)
    with q have kle: "Suc ?k \<le> LAST_WINDOW + 1"
      and ub': "s_i s + PEAK_SEARCH_RANGE \<le> (LAST_WINDOW + 1) * PEAK_SEARCH_RANGE"
      by (simp_all add: PEAK_SEARCH_RANGE_def LAST_WINDOW_value)
    have kn: "(s_i s + PEAK_SEARCH_RANGE) div PEAK_SEARCH_RANGE = Suc ?k"
      by (simp add: PEAK_SEARCH_RANGE_def)
    from loop_body_accepted [OF winv True len pinv cap acc] obtain nxt s1 where
      s1: "s1 = s\<lparr>s_peaks := (s_peaks s)[?c := s_current_min_index s],
             s_peak_count := s_peak_count s + 1\<rparr>"
      and lb: "loop_body array s =
        (if strict_dip array ?k
         then if PEAK_TRACKING_LIMIT \<le> ?c + 1
              then Inr (Stop CapacityReached s1)
              else Inr (Next (advance s1 nxt))
         else Inr (Next (advance s nxt)))"
      and acc1: "map unat (take (unat (s_peak_count s1)) (s_peaks s1))
        = accepted_peaks array ?k @ [window_min array ?k]"
      by blast
    consider (full) "strict_dip array ?k" "PEAK_TRACKING_LIMIT \<le> ?c + 1"
      | (more) "strict_dip array ?k" "\<not> PEAK_TRACKING_LIMIT \<le> ?c + 1"
      | (skip) "\<not> strict_dip array ?k" by blast
    then show ?thesis
    proof cases
      case full
      from full(1) acc1 have a1: "map unat (take (unat (s_peak_count s1)) (s_peaks s1))
          = accepted_peaks array (Suc ?k)"
        using accepted_peaks_Suc [OF k1, of array] by simp
      from full(2) c10 lacc full(1) have "length (accepted_peaks array (Suc ?k)) = PEAK_TRACKING_LIMIT"
        using accepted_peaks_Suc [OF k1, of array] by simp
      with accepted_peaks_prefix [OF kle, of array]
      have "take PEAK_TRACKING_LIMIT (accepted_peaks array (LAST_WINDOW + 1))
          = accepted_peaks array (Suc ?k)" by simp
      moreover have "scan_loop array s = Inr (CapacityReached, s1)"
        using True lb full by (subst scan_loop.simps) simp
      ultimately show ?thesis using a1 by simp
    next
      case more
      let ?s' = "advance s1 nxt"
      from more lb have nx: "loop_body array s = Inr (Next ?s')" by simp
      have w': "window_inv array ?s'" by (rule loop_body_Next_window_inv [OF winv True len nx])
      have p': "peaks_inv pk ?s'"
        by (rule loop_body_Next_peaks_inv [OF winv True len pinv cap nx])
      have i': "s_i ?s' = s_i s + PEAK_SEARCH_RANGE" by (simp add: advance_def s1)
      have "map unat (take (unat (s_peak_count ?s')) (s_peaks ?s'))
          = accepted_peaks array (Suc ?k)"
        using more(1) acc1 accepted_peaks_Suc [OF k1, of array] by (simp add: advance_def)
      then have a': "map unat (take (unat (s_peak_count ?s')) (s_peaks ?s'))
          = accepted_peaks array (s_i ?s' div PEAK_SEARCH_RANGE)"
        unfolding i' kn .
      from ub' have u': "s_i ?s' \<le> (LAST_WINDOW + 1) * PEAK_SEARCH_RANGE" unfolding i' .
      from "1.IH" [OF True nx refl w' p' len cap u' a'] obtain r sf where
        "scan_loop array ?s' = Inr (r, sf)"
        "map unat (take (unat (s_peak_count sf)) (s_peaks sf))
          = take PEAK_TRACKING_LIMIT (accepted_peaks array (LAST_WINDOW + 1))" by blast
      moreover have "scan_loop array s = scan_loop array ?s'"
        using True nx by (subst scan_loop.simps) simp
      ultimately show ?thesis by simp
    next
      case skip
      let ?s' = "advance s nxt"
      from skip lb have nx: "loop_body array s = Inr (Next ?s')" by simp
      have w': "window_inv array ?s'" by (rule loop_body_Next_window_inv [OF winv True len nx])
      have p': "peaks_inv pk ?s'"
        by (rule loop_body_Next_peaks_inv [OF winv True len pinv cap nx])
      have i': "s_i ?s' = s_i s + PEAK_SEARCH_RANGE" by (simp add: advance_def)
      have "map unat (take (unat (s_peak_count ?s')) (s_peaks ?s'))
          = accepted_peaks array (Suc ?k)"
        using skip acc accepted_peaks_Suc [OF k1, of array] by (simp add: advance_def)
      then have a': "map unat (take (unat (s_peak_count ?s')) (s_peaks ?s'))
          = accepted_peaks array (s_i ?s' div PEAK_SEARCH_RANGE)"
        unfolding i' kn .
      from ub' have u': "s_i ?s' \<le> (LAST_WINDOW + 1) * PEAK_SEARCH_RANGE" unfolding i' .
      from "1.IH" [OF True nx refl w' p' len cap u' a'] obtain r sf where
        "scan_loop array ?s' = Inr (r, sf)"
        "map unat (take (unat (s_peak_count sf)) (s_peaks sf))
          = take PEAK_TRACKING_LIMIT (accepted_peaks array (LAST_WINDOW + 1))" by blast
      moreover have "scan_loop array s = scan_loop array ?s'"
        using True nx by (subst scan_loop.simps) simp
      ultimately show ?thesis by simp
    qed
  qed
qed


lemma scan_steps_accepted:
  assumes "scan_steps a s0 s" and "window_inv a s0" and "peaks_inv pk s0"
    and "SHIFT_LIMIT \<le> length a" and "PEAK_TRACKING_LIMIT \<le> length pk"
    and "map unat (take (unat (s_peak_count s0)) (s_peaks s0))
      = accepted_peaks a (s_i s0 div PEAK_SEARCH_RANGE)"
  shows "map unat (take (unat (s_peak_count s)) (s_peaks s))
      = accepted_peaks a (s_i s div PEAK_SEARCH_RANGE)"
  using assms
proof (induction rule: scan_steps.induct)
  case scan_steps_start
  then show ?case by simp
next
  case (scan_steps_next s s')
  let ?k = "s_i s div PEAK_SEARCH_RANGE"
  note run = scan_steps_next.hyps(2) and nx = scan_steps_next.hyps(3)
  note len = scan_steps_next.prems(3) and cap = scan_steps_next.prems(4)
  from scan_steps_next.hyps(1) scan_steps_next.prems(1) len
  have winv: "window_inv a s" by (rule scan_steps_window_inv)
  have pinv: "peaks_inv pk s"
    by (rule scan_steps_peaks_inv [OF scan_steps_next.hyps(1) scan_steps_next.prems(1,2) len cap])
  have acc: "map unat (take (unat (s_peak_count s)) (s_peaks s)) = accepted_peaks a ?k"
    using scan_steps_next by simp
  from winv have "PEAK_SEARCH_RANGE \<le> s_i s" unfolding window_inv_def by simp
  then have k1: "1 \<le> ?k" by (simp add: PEAK_SEARCH_RANGE_def)
  have kn: "(s_i s + PEAK_SEARCH_RANGE) div PEAK_SEARCH_RANGE = Suc ?k"
    by (simp add: PEAK_SEARCH_RANGE_def)
  from loop_body_accepted [OF winv run len pinv cap acc] obtain nxt s1 where
    s1: "s1 = s\<lparr>s_peaks := (s_peaks s)[unat (s_peak_count s) := s_current_min_index s],
           s_peak_count := s_peak_count s + 1\<rparr>"
    and lb: "loop_body a s =
      (if strict_dip a ?k
       then if PEAK_TRACKING_LIMIT \<le> unat (s_peak_count s) + 1
            then Inr (Stop CapacityReached s1)
            else Inr (Next (advance s1 nxt))
       else Inr (Next (advance s nxt)))"
    and acc1: "map unat (take (unat (s_peak_count s1)) (s_peaks s1))
      = accepted_peaks a ?k @ [window_min a ?k]"
    by blast
  from nx [unfolded lb] consider
      (appended) "s' = advance s1 nxt" "strict_dip a ?k"
    | (skipped) "s' = advance s nxt" "\<not> strict_dip a ?k"
    by (auto split: if_splits)
  then show ?case
  proof cases
    case appended
    have "s_i s' = s_i s + PEAK_SEARCH_RANGE" by (simp add: appended(1) advance_def s1)
    moreover have "map unat (take (unat (s_peak_count s')) (s_peaks s'))
        = accepted_peaks a (Suc ?k)"
      using appended(2) acc1 accepted_peaks_Suc [OF k1, of a] by (simp add: appended(1) advance_def)
    ultimately show ?thesis by (simp only: kn)
  next
    case skipped
    have "s_i s' = s_i s + PEAK_SEARCH_RANGE" by (simp add: skipped(1) advance_def)
    moreover have "map unat (take (unat (s_peak_count s')) (s_peaks s'))
        = accepted_peaks a (Suc ?k)"
      using skipped(2) acc accepted_peaks_Suc [OF k1, of a] by (simp add: skipped(1) advance_def)
    ultimately show ?thesis by (simp only: kn)
  qed
qed

lemma initial_accepted:
  assumes "s_i s0 = PEAK_SEARCH_RANGE" and "s_peak_count s0 = 0"
  shows "map unat (take (unat (s_peak_count s0)) (s_peaks s0))
      = accepted_peaks a (s_i s0 div PEAK_SEARCH_RANGE)"
  using assms by (simp add: accepted_peaks_def PEAK_SEARCH_RANGE_def)

text \<open>
  C7.  A call of \<^verbatim>\<open>calculate_peaks\<close> with a count of zero, on a profile with at least
  \<open>SHIFT_LIMIT\<close> elements and a peak array with room for \<open>PEAK_TRACKING_LIMIT\<close> entries,
  ends without a fault (no write falls outside the array) with a count of at most
  \<open>PEAK_TRACKING_LIMIT\<close>; every entry at a position from the final count on is untouched,
  hence no entry at a position \<open>\<ge> PEAK_TRACKING_LIMIT\<close> is written; the recorded peaks
  ascend strictly, and they are exactly the accepted peaks of the scanned windows
  \<open>1 .. LAST_WINDOW\<close> in ascending order, cut off after the first \<open>PEAK_TRACKING_LIMIT\<close> of
  them; the scan ends by the \<^verbatim>\<open>return\<close> of line 37 exactly when the count is
  \<open>PEAK_TRACKING_LIMIT\<close>, in the very pass that recorded the last peak.

  Whenever the loop condition is tested the count is below the limit and the recorded
  peaks are the accepted peaks of the windows already passed.  A pass through the body
  either leaves the output parameters alone or stores \<open>current_min_index\<close> at the position
  of the old count and adds one to the count.  It does the latter exactly when the test
  of line 24 succeeds, which is when the current window is a strict dip; it then returns
  if the new count has reached the limit, and goes on to the next window otherwise.
\<close>

theorem peak_count_never_exceeds_limit:
  assumes "SHIFT_LIMIT \<le> length array" and "PEAK_TRACKING_LIMIT \<le> length peaks"
  shows "\<exists>reason sf. calculate_peaks peaks 0 array = Inr (reason, sf)
    \<and> unat (s_peak_count sf) \<le> PEAK_TRACKING_LIMIT
    \<and> length (s_peaks sf) = length peaks
    \<and> (\<forall>j \<ge> unat (s_peak_count sf). s_peaks sf ! j = peaks ! j)
    \<and> sorted_wrt (<) (map unat (take (unat (s_peak_count sf)) (s_peaks sf)))
    \<and> map unat (take (unat (s_peak_count sf)) (s_peaks sf))
        = take PEAK_TRACKING_LIMIT (accepted_peaks array (LAST_WINDOW + 1))
    \<and> (reason = CapacityReached \<longleftrightarrow> unat (s_peak_count sf) = PEAK_TRACKING_LIMIT)
    \<and> (reason = CapacityReached \<longrightarrow>
          s_i sf < SHIFT_LIMIT - PEAK_SEARCH_RANGE - PEAK_SEARCH_RANGE
          \<and> s_peaks sf ! (PEAK_TRACKING_LIMIT - 1) = s_current_min_index sf)
    \<and> (\<forall>s0 s. initial_state peaks 0 array = Inr s0 \<longrightarrow> scan_steps array s0 s \<longrightarrow>
          unat (s_peak_count s) < PEAK_TRACKING_LIMIT
          \<and> map unat (take (unat (s_peak_count s)) (s_peaks s))
              = accepted_peaks array (s_i s div PEAK_SEARCH_RANGE)
          \<and> (\<forall>s'. s_i s < SHIFT_LIMIT - PEAK_SEARCH_RANGE - PEAK_SEARCH_RANGE \<longrightarrow>
                loop_body array s = Inr (Next s')
                  \<or> (\<exists>r. loop_body array s = Inr (Stop r s')) \<longrightarrow>
                s_peaks s' = s_peaks s \<and> s_peak_count s' = s_peak_count s
                \<or> s_peaks s' = (s_peaks s)[unat (s_peak_count s) := s_current_min_index s]
                  \<and> s_peak_count s' = s_peak_count s + 1)
          \<and> (s_i s < SHIFT_LIMIT - PEAK_SEARCH_RANGE - PEAK_SEARCH_RANGE \<longrightarrow>
                (\<exists>nxt.
                   min_in_range array (word_of_nat (s_i s + PEAK_SEARCH_RANGE))
                     (word_of_nat PEAK_SEARCH_RANGE) = Inr nxt
                 \<and> candidate_test array (s_prev_min_index s) (s_current_min_index s) nxt
                     = Inr (strict_dip array (s_i s div PEAK_SEARCH_RANGE))
                 \<and> unat (s_current_min_index s) = window_min array (s_i s div PEAK_SEARCH_RANGE)
                 \<and> loop_body array s =
                     (if strict_dip array (s_i s div PEAK_SEARCH_RANGE)
                      then if PEAK_TRACKING_LIMIT \<le> unat (s_peak_count s) + 1
                           then Inr (Stop CapacityReached
                             (s\<lparr>s_peaks := (s_peaks s)
                                   [unat (s_peak_count s) := s_current_min_index s],
                                 s_peak_count := s_peak_count s + 1\<rparr>))
                           else Inr (Next (advance
                             (s\<lparr>s_peaks := (s_peaks s)
                                   [unat (s_peak_count s) := s_current_min_index s],
                                 s_peak_count := s_peak_count s + 1\<rparr>) nxt))
                      else Inr (Next (advance s nxt))))))"
proof -
  from initial_state_window_inv [OF assms(1), of peaks 0] obtain s0 where
    s0: "initial_state peaks 0 array = Inr s0" "window_inv array s0"
      "s_peaks s0 = peaks" "s_peak_count s0 = 0" "s_i s0 = PEAK_SEARCH_RANGE" by blast
  from s0(3,4) have p0: "peaks_inv peaks s0" by (rule initial_peaks_inv)
  have a0: "map unat (take (unat (s_peak_count s0)) (s_peaks s0))
      = accepted_peaks array (s_i s0 div PEAK_SEARCH_RANGE)"
    using s0(5,4) by (rule initial_accepted)
  have u0: "s_i s0 \<le> (LAST_WINDOW + 1) * PEAK_SEARCH_RANGE"
    by (simp add: s0(5) LAST_WINDOW_value)
  from scan_loop_result [OF s0(2) p0 assms] obtain r sf where
    res: "scan_loop array s0 = Inr (r, sf)"
      "recorded peaks (s_i sf + PEAK_SEARCH_RANGE) sf"
      "unat (s_peak_count sf) \<le> PEAK_TRACKING_LIMIT"
      "r = CapacityReached \<longleftrightarrow> unat (s_peak_count sf) = PEAK_TRACKING_LIMIT"
      "r = CapacityReached \<longrightarrow>
          s_i sf < SHIFT_LIMIT - PEAK_SEARCH_RANGE - PEAK_SEARCH_RANGE
          \<and> s_peaks sf ! (PEAK_TRACKING_LIMIT - 1) = s_current_min_index sf"
    by blast
  from scan_loop_accepted [OF s0(2) p0 assms u0 a0] res(1)
  have facc: "map unat (take (unat (s_peak_count sf)) (s_peaks sf))
        = take PEAK_TRACKING_LIMIT (accepted_peaks array (LAST_WINDOW + 1))" by auto
  have call: "calculate_peaks peaks 0 array = Inr (r, sf)"
    by (simp add: calculate_peaks_def s0(1) res(1))
  from res(2) have fin: "length (s_peaks sf) = length peaks"
    "\<forall>j \<ge> unat (s_peak_count sf). s_peaks sf ! j = peaks ! j"
    "sorted_wrt (<) (map unat (take (unat (s_peak_count sf)) (s_peaks sf)))"
    unfolding recorded_def by simp_all
  have during: "unat (s_peak_count s) < PEAK_TRACKING_LIMIT
      \<and> map unat (take (unat (s_peak_count s)) (s_peaks s))
          = accepted_peaks array (s_i s div PEAK_SEARCH_RANGE)
      \<and> (\<forall>s'. s_i s < SHIFT_LIMIT - PEAK_SEARCH_RANGE - PEAK_SEARCH_RANGE \<longrightarrow>
            loop_body array s = Inr (Next s')
              \<or> (\<exists>r. loop_body array s = Inr (Stop r s')) \<longrightarrow>
            s_peaks s' = s_peaks s \<and> s_peak_count s' = s_peak_count s
            \<or> s_peaks s' = (s_peaks s)[unat (s_peak_count s) := s_current_min_index s]
              \<and> s_peak_count s' = s_peak_count s + 1)
      \<and> (s_i s < SHIFT_LIMIT - PEAK_SEARCH_RANGE - PEAK_SEARCH_RANGE \<longrightarrow>
            (\<exists>nxt.
               min_in_range array (word_of_nat (s_i s + PEAK_SEARCH_RANGE))
                 (word_of_nat PEAK_SEARCH_RANGE) = Inr nxt
             \<and> candidate_test array (s_prev_min_index s) (s_current_min_index s) nxt
                 = Inr (strict_dip array (s_i s div PEAK_SEARCH_RANGE))
             \<and> unat (s_current_min_index s) = window_min array (s_i s div PEAK_SEARCH_RANGE)
             \<and> loop_body array s =
                 (if strict_dip array (s_i s div PEAK_SEARCH_RANGE)
                  then if PEAK_TRACKING_LIMIT \<le> unat (s_peak_count s) + 1
                       then Inr (Stop CapacityReached
                         (s\<lparr>s_peaks := (s_peaks s)
                               [unat (s_peak_count s) := s_current_min_index s],
                             s_peak_count := s_peak_count s + 1\<rparr>))
                       else Inr (Next (advance
                         (s\<lparr>s_peaks := (s_peaks s)
                               [unat (s_peak_count s) := s_current_min_index s],
                             s_peak_count := s_peak_count s + 1\<rparr>) nxt))
                  else Inr (Next (advance s nxt)))))"
    if init: "initial_state peaks 0 array = Inr t0" and steps: "scan_steps array t0 s" for t0 s
  proof -
    from init s0(1) have "t0 = s0" by simp
    with steps have st: "scan_steps array s0 s" by simp
    have winv: "window_inv array s" by (rule scan_steps_window_inv [OF st s0(2) assms(1)])
    have pinv: "peaks_inv peaks s" by (rule scan_steps_peaks_inv [OF st s0(2) p0 assms])
    have acc: "map unat (take (unat (s_peak_count s)) (s_peaks s))
          = accepted_peaks array (s_i s div PEAK_SEARCH_RANGE)"
      by (rule scan_steps_accepted [OF st s0(2) p0 assms a0])
    have old: "s_peaks s' = s_peaks s \<and> s_peak_count s' = s_peak_count s
        \<or> s_peaks s' = (s_peaks s)[unat (s_peak_count s) := s_current_min_index s]
          \<and> s_peak_count s' = s_peak_count s + 1"
      if run: "s_i s < SHIFT_LIMIT - PEAK_SEARCH_RANGE - PEAK_SEARCH_RANGE"
        and out: "loop_body array s = Inr (Next s') \<or> (\<exists>r. loop_body array s = Inr (Stop r s'))"
      for s'
    proof -
      from loop_body_peaks [OF winv run assms(1) pinv assms(2)] obtain nxt s1 where
        s1: "s1 = s\<lparr>s_peaks := (s_peaks s)[unat (s_peak_count s) := s_current_min_index s],
               s_peak_count := s_peak_count s + 1\<rparr>"
        and lb: "loop_body array s =
          (if sint (array ! unat (s_current_min_index s)) < sint (array ! unat (s_prev_min_index s))
             \<and> sint (array ! unat (s_current_min_index s)) < sint (array ! unat nxt)
           then if PEAK_TRACKING_LIMIT \<le> unat (s_peak_count s) + 1
                then Inr (Stop CapacityReached s1)
                else Inr (Next (advance s1 nxt))
           else Inr (Next (advance s nxt)))"
        by blast
      from out [unfolded lb] have "s' = s1 \<or> s' = advance s1 nxt \<or> s' = advance s nxt"
        by (auto split: if_splits)
      then show ?thesis by (auto simp: s1 advance_def)
    qed
    have new: "\<exists>nxt.
               min_in_range array (word_of_nat (s_i s + PEAK_SEARCH_RANGE))
                 (word_of_nat PEAK_SEARCH_RANGE) = Inr nxt
             \<and> candidate_test array (s_prev_min_index s) (s_current_min_index s) nxt
                 = Inr (strict_dip array (s_i s div PEAK_SEARCH_RANGE))
             \<and> unat (s_current_min_index s) = window_min array (s_i s div PEAK_SEARCH_RANGE)
             \<and> loop_body array s =
                 (if strict_dip array (s_i s div PEAK_SEARCH_RANGE)
                  then if PEAK_TRACKING_LIMIT \<le> unat (s_peak_count s) + 1
                       then Inr (Stop CapacityReached
                         (s\<lparr>s_peaks := (s_peaks s)
                               [unat (s_peak_count s) := s_current_min_index s],
                             s_peak_count := s_peak_count s + 1\<rparr>))
                       else Inr (Next (advance
                         (s\<lparr>s_peaks := (s_peaks s)
                               [unat (s_peak_count s) := s_current_min_index s],
                             s_peak_count := s_peak_count s + 1\<rparr>) nxt))
                  else Inr (Next (advance s nxt)))"
      if run: "s_i s < SHIFT_LIMIT - PEAK_SEARCH_RANGE - PEAK_SEARCH_RANGE"
      using loop_body_accepted [OF winv run assms(1) pinv assms(2) acc] by blast
    from pinv have "unat (s_peak_count s) < PEAK_TRACKING_LIMIT" unfolding peaks_inv_def by simp
    with acc old new show ?thesis by blast
  qed
  from call res(3-5) fin facc during show ?thesis by blast
qed


theorem peak_count_never_exceeds_limit_witness:
  "\<exists>sf. calculate_peaks (replicate 10 0) 0 (replicate 15 5 @ 1 # replicate 1484 5)
        = Inr (RangeExhausted, sf)
    \<and> s_peak_count sf = 1
    \<and> s_peaks sf = (replicate 10 0)[0 := 15]
    \<and> unat (s_peak_count sf) \<le> PEAK_TRACKING_LIMIT
    \<and> take PEAK_TRACKING_LIMIT
          (accepted_peaks (replicate 15 5 @ 1 # replicate 1484 5) (LAST_WINDOW + 1)) = [15]"
proof -
  let ?a = "replicate 15 5 @ 1 # replicate 1484 5 :: i32 list"
  let ?pk = "replicate 10 0 :: u16 list"
  have len: "SHIFT_LIMIT \<le> length ?a" by (simp add: SHIFT_LIMIT_def)
  have cap: "PEAK_TRACKING_LIMIT \<le> length ?pk" by (simp add: PEAK_TRACKING_LIMIT_def)
  from peak_count_never_exceeds_limit [OF len cap] obtain r sf where
    call: "calculate_peaks ?pk 0 ?a = Inr (r, sf)"
    and le: "unat (s_peak_count sf) \<le> PEAK_TRACKING_LIMIT"
    and acc: "map unat (take (unat (s_peak_count sf)) (s_peaks sf))
        = take PEAK_TRACKING_LIMIT (accepted_peaks ?a (LAST_WINDOW + 1))"
    by blast
  from one_dip_scan [OF cap] obtain sf' where
    one: "calculate_peaks ?pk 0 ?a = Inr (RangeExhausted, sf')"
      "s_peaks sf' = ?pk[0 := 15]" "s_peak_count sf' = 1" by blast
  from call one(1) have eq: "r = RangeExhausted" "sf = sf'" by simp_all
  have "take (unat (s_peak_count sf)) (s_peaks sf) = [15]"
    unfolding eq one(2,3) using take_Suc_update [of 0 ?pk 15] by simp
  with acc have "take PEAK_TRACKING_LIMIT (accepted_peaks ?a (LAST_WINDOW + 1)) = [15]" by simp
  with call le one(2,3) eq show ?thesis by blast
qed

section \<open>Harmonic rejection\<close>

lemma scan_loop_never_harmonic:
  assumes "window_inv a s" and "SHIFT_LIMIT \<le> length a"
  shows "scan_loop a s \<noteq> Inr (HarmonicRejected, sf)"
  using assms
proof (induction a s rule: scan_loop.induct)
  case (1 array s)
  note winv = "1.prems"(1) and len = "1.prems"(2)
  show ?case
  proof (cases "s_i s < SHIFT_LIMIT - PEAK_SEARCH_RANGE - PEAK_SEARCH_RANGE")
    case False
    then show ?thesis by (subst scan_loop.simps) simp
  next
    case True
    from loop_body_eq [OF winv True len] obtain nxt where
      lb: "loop_body array s =
        (if sint (array ! unat (s_current_min_index s)) < sint (array ! unat (s_prev_min_index s))
           \<and> sint (array ! unat (s_current_min_index s)) < sint (array ! unat nxt)
         then
           (case wr (s_peaks s) (uint (s_peak_count s + 1) - 1) (s_current_min_index s) of
              Inl e \<Rightarrow> Inl e
            | Inr peaks' \<Rightarrow>
                if PEAK_TRACKING_LIMIT \<le> unat (s_peak_count s + 1)
                then Inr (Stop CapacityReached
                       (s\<lparr>s_peaks := peaks', s_peak_count := s_peak_count s + 1\<rparr>))
                else Inr (Next (advance
                       (s\<lparr>s_peaks := peaks', s_peak_count := s_peak_count s + 1\<rparr>) nxt)))
         else Inr (Next (advance s nxt)))"
      by blast
    show ?thesis
    proof (cases "loop_body array s")
      case (Inl e)
      with True show ?thesis by (subst scan_loop.simps) simp
    next
      case (Inr st)
      show ?thesis
      proof (cases st)
        case (Next s')
        with Inr have nx: "loop_body array s = Inr (Next s')" by simp
        have "window_inv array s'" by (rule loop_body_Next_window_inv [OF winv True len nx])
        from "1.IH" [OF True nx refl this len]
        have "scan_loop array s' \<noteq> Inr (HarmonicRejected, sf)" .
        moreover have "scan_loop array s = scan_loop array s'"
          using True nx by (subst scan_loop.simps) simp
        ultimately show ?thesis by simp
      next
        case (Stop r s')
        with Inr lb have "r = CapacityReached" by (auto split: if_splits sum.splits)
        with True Inr Stop show ?thesis by (subst scan_loop.simps) simp
      qed
    qed
  qed
qed

lemma calculate_peaks_never_harmonic_rejected:
  assumes "SHIFT_LIMIT \<le> length array"
  shows "calculate_peaks peaks peak_count array \<noteq> Inr (HarmonicRejected, sf)"
proof -
  from initial_state_window_inv [OF assms, of peaks peak_count] obtain s0 where
    s0: "initial_state peaks peak_count array = Inr s0" "window_inv array s0" by blast
  from scan_loop_never_harmonic [OF s0(2) assms, of sf] show ?thesis
    by (simp add: calculate_peaks_def s0(1))
qed






end
